theory Spec2Isabelle
  imports Main "HOL-Library.Word" "HOL-Library.Signed_Division"
begin

unbundle bit_operations_syntax

section \<open>Machine integers\<close>

text \<open>
  The library works on \<^verbatim>\<open>uint64_t\<close> and \<^verbatim>\<open>uint32_t\<close>. Both are modelled as
  words, so that \<open>+\<close>, \<open>-\<close> and \<open>*\<close> wrap around as the unsigned C++ operators do,
  \<open>div\<close> and \<open>mod\<close> are the unsigned \<^verbatim>\<open>/\<close> and \<^verbatim>\<open>%\<close>, and \<open>\<le>\<close> is the unsigned
  comparison. The signed \<^verbatim>\<open>int\<close>, at which the template \<^verbatim>\<open>prime_factors\<close> is instantiated
  too, is treated with that function.
\<close>

type_synonym u64 = "64 word"
type_synonym u32 = "32 word"

section \<open>The primality test \<^verbatim>\<open>is_prime\<close>\<close>

text \<open>
  \<^verbatim>\<open>for (T i = 5; i * i <= n; i += 6) if (n % i == 0 || n % (i + 2) == 0) return false;\<close>
  followed by \<^verbatim>\<open>return true\<close>. The product \<open>i * i\<close> and the sum \<open>i + 6\<close> are 64-bit
  and may wrap, so the loop is not obviously finite: it is a partial function, and
  \<open>None\<close> stands for a loop that never leaves. The divisors \<open>i\<close> and \<open>i + 2\<close> are odd in
  every round, also after a wrap, so \<^verbatim>\<open>%\<close> never divides by zero here.
\<close>

partial_function (option) is_prime_loop :: "u64 \<Rightarrow> u64 \<Rightarrow> bool option" where
  "is_prime_loop n i =
     (if i * i \<le> n
      then (if n mod i = 0 \<or> n mod (i + 2) = 0 then Some False
            else is_prime_loop n (i + 6))
      else Some True)"

definition is_prime :: "u64 \<Rightarrow> bool option" where
  "is_prime n =
     (if n \<le> 1 then Some False
      else if n \<le> 3 then Some True
      else if n mod 2 = 0 \<or> n mod 3 = 0 then Some False
      else is_prime_loop n 5)"

declare is_prime_loop.simps [code]

section \<open>The thread-local cache of \<^verbatim>\<open>PrimeChecker\<close>\<close>

text \<open>
  \<^verbatim>\<open>static thread_local std::vector<std::pair<uint64_t, bool>> cache\<close>: one vector per
  thread, oldest entry first, empty when the thread starts. No other thread can reach
  it, so a call of \<^verbatim>\<open>is_prime_cached\<close> is a function of the calling thread's vector
  and the argument, and returns the answer with the updated vector.
\<close>

type_synonym cache = "(u64 \<times> bool) list"

definition CACHE_SIZE :: nat where
  "CACHE_SIZE = 1000"

definition is_prime_cached :: "cache \<Rightarrow> u64 \<Rightarrow> (bool \<times> cache) option" where
  "is_prime_cached cache n =
     (case find (\<lambda>entry. fst entry = n) cache of
        Some entry \<Rightarrow> Some (snd entry, cache)
      | None \<Rightarrow>
          (case is_prime n of
             None \<Rightarrow> None
           | Some result \<Rightarrow>
               Some (result,
                 (if CACHE_SIZE \<le> length cache then tl cache else cache) @ [(n, result)])))"

text \<open>The vectors a thread can hold: the empty one, and what a call leaves behind.\<close>

inductive cache_reachable :: "cache \<Rightarrow> bool" where
  initial: "cache_reachable []"
| call: "cache_reachable cache \<Longrightarrow> is_prime_cached cache n = Some (result, cache')
           \<Longrightarrow> cache_reachable cache'"

text \<open>The invariant of these vectors: every entry stores what \<^verbatim>\<open>is_prime\<close> returns for its key.\<close>

definition cache_sound :: "cache \<Rightarrow> bool" where
  "cache_sound cache \<longleftrightarrow> (\<forall>(k, v) \<in> set cache. is_prime k = Some v)"

text \<open>A thread asking for the numbers \<open>ns\<close> one after the other.\<close>

fun cached_calls :: "cache \<Rightarrow> u64 list \<Rightarrow> cache option" where
  "cached_calls cache [] = Some cache"
| "cached_calls cache (n # ns) =
     (case is_prime_cached cache n of
        None \<Rightarrow> None
      | Some (result, cache') \<Rightarrow> cached_calls cache' ns)"


section \<open>Undefined behaviour\<close>

text \<open>
  The operations below have inputs on which the C++ has no defined result. The model
  returns these as values, so that such an input is a branch of the model and not an
  unspecified term of the logic.
\<close>

datatype fault =
    DivisionByZero      \<comment> \<open>unsigned \<^verbatim>\<open>/\<close> with divisor 0\<close>
  | OutOfBounds         \<comment> \<open>\<^verbatim>\<open>operator[]\<close> of a vector past its size\<close>
  | ResumeAfterDone     \<comment> \<open>\<^verbatim>\<open>resume()\<close> of a coroutine suspended at its final suspend point\<close>
  | IndeterminateValue  \<comment> \<open>read of \<^verbatim>\<open>promise().value\<close> before any \<^verbatim>\<open>co_yield\<close> wrote it\<close>
  | SignedOverflow      \<comment> \<open>a signed \<^verbatim>\<open>int\<close> product or sum above \<^verbatim>\<open>INT_MAX\<close>\<close>

section \<open>The Fibonacci coroutine\<close>

text \<open>
  A coroutine is modelled by its frame: where it is suspended and the locals alive
  there. \<^verbatim>\<open>initial_suspend\<close> returns \<^verbatim>\<open>suspend_always\<close>, so \<^verbatim>\<open>fibonacci_sequence\<close> returns
  before the body has run (\<open>FibInitial\<close>); \<^verbatim>\<open>co_yield a\<close> stores \<open>a\<close> in the promise and
  suspends inside the loop (\<open>FibYield i a b\<close>); leaving the loop runs to the final
  suspend point (\<open>FibFinal\<close>), the only place where \<^verbatim>\<open>handle.done()\<close> is true.
\<close>

datatype fib_frame = FibInitial | FibYield u64 u64 u64 | FibFinal

record fibonacci_generator =
  fib_max_count :: u64
  fib_frame :: fib_frame
  fib_value :: "u64 option"

definition fibonacci_sequence :: "u64 \<Rightarrow> fibonacci_generator" where
  "fibonacci_sequence max_count =
     \<lparr>fib_max_count = max_count, fib_frame = FibInitial, fib_value = None\<rparr>"

text \<open>The loop test \<^verbatim>\<open>i < max_count\<close>, then \<^verbatim>\<open>co_yield a\<close> or the end of the body.\<close>

definition fib_loop :: "fibonacci_generator \<Rightarrow> u64 \<Rightarrow> u64 \<Rightarrow> u64 \<Rightarrow> fibonacci_generator" where
  "fib_loop g i a b =
     (if i < fib_max_count g
      then g\<lparr>fib_frame := FibYield i a b, fib_value := Some a\<rparr>
      else g\<lparr>fib_frame := FibFinal\<rparr>)"

text \<open>
  \<^verbatim>\<open>handle.resume()\<close>: from the start, \<^verbatim>\<open>a = 0, b = 1, i = 0\<close> and the loop test; from a
  \<^verbatim>\<open>co_yield\<close>, \<^verbatim>\<open>temp = a; a = b; b = temp + b; i++\<close> and the loop test.
\<close>

definition fib_resume :: "fibonacci_generator \<Rightarrow> fault + fibonacci_generator" where
  "fib_resume g =
     (case fib_frame g of
        FibInitial \<Rightarrow> Inr (fib_loop g 0 0 1)
      | FibYield i a b \<Rightarrow> (let temp = a; a' = b; b' = temp + b in Inr (fib_loop g (i + 1) a' b'))
      | FibFinal \<Rightarrow> Inl ResumeAfterDone)"

definition fib_done :: "fibonacci_generator \<Rightarrow> bool" where
  "fib_done g \<longleftrightarrow> fib_frame g = FibFinal"

text \<open>\<^verbatim>\<open>next()\<close>: \<^verbatim>\<open>handle.resume(); return handle.promise().value;\<close>\<close>

definition fib_next :: "fibonacci_generator \<Rightarrow> fault + (u64 \<times> fibonacci_generator)" where
  "fib_next g =
     (case fib_resume g of
        Inl e \<Rightarrow> Inl e
      | Inr g' \<Rightarrow>
          (case fib_value g' of
             None \<Rightarrow> Inl IndeterminateValue
           | Some v \<Rightarrow> Inr (v, g')))"

text \<open>The first \<open>k\<close> calls of \<^verbatim>\<open>next()\<close> on a generator: the values returned, in order, and the generator afterwards.\<close>

fun fib_nexts :: "nat \<Rightarrow> fibonacci_generator \<Rightarrow> fault + (u64 list \<times> fibonacci_generator)" where
  "fib_nexts 0 g = Inr ([], g)"
| "fib_nexts (Suc k) g =
     (case fib_nexts k g of
        Inl e \<Rightarrow> Inl e
      | Inr (vs, g') \<Rightarrow>
          (case fib_next g' of
             Inl e \<Rightarrow> Inl e
           | Inr (v, g'') \<Rightarrow> Inr (vs @ [v], g'')))"

definition fib_values :: "u64 \<Rightarrow> nat \<Rightarrow> fault + u64 list" where
  "fib_values max_count k = map_sum id fst (fib_nexts k (fibonacci_sequence max_count))"

definition fib_done_after :: "u64 \<Rightarrow> nat \<Rightarrow> fault + bool" where
  "fib_done_after max_count k =
     map_sum id (\<lambda>(vs, g). fib_done g) (fib_nexts k (fibonacci_sequence max_count))"

text \<open>The Fibonacci numbers, \<open>F(0) = 0\<close>, \<open>F(1) = 1\<close>.\<close>

fun fib :: "nat \<Rightarrow> nat" where
  "fib 0 = 0"
| "fib (Suc 0) = 1"
| "fib (Suc (Suc n)) = fib (Suc n) + fib n"

fun fib_from :: "nat \<Rightarrow> nat \<Rightarrow> nat \<Rightarrow> nat" where
  "fib_from a b 0 = a"
| "fib_from a b (Suc n) = fib_from b (a + b) n"

text \<open>The generator suspended at the \<^verbatim>\<open>co_yield\<close> of loop round \<open>j\<close>, as the proofs below show.\<close>

definition fib_yielded :: "u64 \<Rightarrow> nat \<Rightarrow> fibonacci_generator" where
  "fib_yielded m j =
     \<lparr>fib_max_count = m,
      fib_frame = FibYield (word_of_nat j) (word_of_nat (fib j)) (word_of_nat (fib (Suc j))),
      fib_value = Some (word_of_nat (fib j))\<rparr>"


section \<open>The prime coroutine\<close>

text \<open>
  The candidate test inside \<^verbatim>\<open>generate_primes\<close>:
  \<^verbatim>\<open>for (uint64_t i = 3; i * i <= num; i += 2) if (num % i == 0) { is_prime = false; break; }\<close>
  It returns the final value of the local flag \<^verbatim>\<open>is_prime\<close>, called \<open>flag\<close> below. Again \<open>i * i\<close> and \<open>i + 2\<close> are
  64-bit; \<open>i\<close> is odd in every round, so \<^verbatim>\<open>%\<close> never divides by zero.
\<close>

partial_function (option) trial_division :: "u64 \<Rightarrow> u64 \<Rightarrow> bool option" where
  "trial_division num i =
     (if i * i \<le> num
      then (if num mod i = 0 then Some False else trial_division num (i + 2))
      else Some True)"

declare trial_division.simps [code]

text \<open>
  The frame of the coroutine: not yet started; suspended at \<^verbatim>\<open>co_yield 2\<close>, before
  \<open>count\<close> and \<open>num\<close> exist; suspended at \<^verbatim>\<open>co_yield num\<close> with the locals \<open>count\<close> and
  \<open>num\<close>; or at the final suspend point.
\<close>

datatype prime_frame = PrimeInitial | PrimeYield2 | PrimeYield u64 u64 | PrimeFinal

record prime_generator =
  prime_max_count :: u64
  prime_frame :: prime_frame
  prime_value :: "u64 option"

definition generate_primes :: "u64 \<Rightarrow> prime_generator" where
  "generate_primes max_count =
     \<lparr>prime_max_count = max_count, prime_frame = PrimeInitial, prime_value = None\<rparr>"

text \<open>
  The loop \<^verbatim>\<open>while (count < max_count)\<close>, from its test up to the next \<^verbatim>\<open>co_yield num\<close> or
  to the end of the body. A candidate that is rejected is followed by \<open>num += 2\<close>.
\<close>

partial_function (option) prime_loop ::
  "prime_generator \<Rightarrow> u64 \<Rightarrow> u64 \<Rightarrow> prime_generator option" where
  "prime_loop g count num =
     (if count < prime_max_count g
      then (case trial_division num 3 of
              None \<Rightarrow> None
            | Some flag \<Rightarrow>
                if flag
                then Some (g\<lparr>prime_frame := PrimeYield count num, prime_value := Some num\<rparr>)
                else prime_loop g count (num + 2))
      else Some (g\<lparr>prime_frame := PrimeFinal\<rparr>))"

declare prime_loop.simps [code]

text \<open>
  \<^verbatim>\<open>handle.resume()\<close>. From the start: \<^verbatim>\<open>co_yield 2\<close>. From \<^verbatim>\<open>co_yield 2\<close>: \<open>count = 1\<close>,
  \<open>num = 3\<close> and the loop. From \<^verbatim>\<open>co_yield num\<close>: \<open>count++\<close>, \<open>num += 2\<close> and the loop.
\<close>

definition prime_resume :: "prime_generator \<Rightarrow> (fault + prime_generator) option" where
  "prime_resume g =
     (case prime_frame g of
        PrimeInitial \<Rightarrow> Some (Inr (g\<lparr>prime_frame := PrimeYield2, prime_value := Some 2\<rparr>))
      | PrimeYield2 \<Rightarrow> map_option Inr (prime_loop g 1 3)
      | PrimeYield count num \<Rightarrow> map_option Inr (prime_loop g (count + 1) (num + 2))
      | PrimeFinal \<Rightarrow> Some (Inl ResumeAfterDone))"

definition prime_done :: "prime_generator \<Rightarrow> bool" where
  "prime_done g \<longleftrightarrow> prime_frame g = PrimeFinal"

definition prime_next :: "prime_generator \<Rightarrow> (fault + (u64 \<times> prime_generator)) option" where
  "prime_next g =
     (case prime_resume g of
        None \<Rightarrow> None
      | Some (Inl e) \<Rightarrow> Some (Inl e)
      | Some (Inr g') \<Rightarrow>
          (case prime_value g' of
             None \<Rightarrow> Some (Inl IndeterminateValue)
           | Some v \<Rightarrow> Some (Inr (v, g'))))"

text \<open>The first \<open>k\<close> calls of \<^verbatim>\<open>next()\<close>: the values returned, in order, and the generator afterwards.\<close>

fun prime_nexts ::
  "nat \<Rightarrow> prime_generator \<Rightarrow> (fault + (u64 list \<times> prime_generator)) option" where
  "prime_nexts 0 g = Some (Inr ([], g))"
| "prime_nexts (Suc k) g =
     (case prime_nexts k g of
        None \<Rightarrow> None
      | Some (Inl e) \<Rightarrow> Some (Inl e)
      | Some (Inr (vs, g')) \<Rightarrow>
          (case prime_next g' of
             None \<Rightarrow> None
           | Some (Inl e) \<Rightarrow> Some (Inl e)
           | Some (Inr (v, g'')) \<Rightarrow> Some (Inr (vs @ [v], g''))))"

definition prime_values :: "u64 \<Rightarrow> nat \<Rightarrow> (fault + u64 list) option" where
  "prime_values max_count k =
     map_option (map_sum id fst) (prime_nexts k (generate_primes max_count))"

text \<open>Prime numbers, and the primes up to \<open>n\<close> in ascending order.\<close>

definition prime_nat :: "nat \<Rightarrow> bool" where
  "prime_nat p \<longleftrightarrow> 1 < p \<and> (\<forall>d \<in> {2..<p}. \<not> d dvd p)"

definition primes_upto :: "nat \<Rightarrow> nat list" where
  "primes_upto n = filter prime_nat [2..<Suc n]"

text \<open>
  The generator with count \<open>m\<close> after it has returned the primes up to \<open>n\<close>, as the proofs
  below show: suspended at \<^verbatim>\<open>co_yield 2\<close> if 2 is the only one, and else at \<^verbatim>\<open>co_yield num\<close>
  with \<open>num\<close> the last prime and \<open>count\<close> the number of primes before it.
\<close>

definition prime_state_upto :: "u64 \<Rightarrow> nat \<Rightarrow> prime_generator" where
  "prime_state_upto m n =
     (let ps = primes_upto n
      in \<lparr>prime_max_count = m,
          prime_frame =
            (if length ps = 1 then PrimeYield2
             else PrimeYield (word_of_nat (length ps - 1)) (word_of_nat (last ps))),
          prime_value = Some (word_of_nat (last ps))\<rparr>)"

section \<open>The concurrent prime counter\<close>

text \<open>
  The worker of one chunk:
  \<^verbatim>\<open>for (uint64_t n = chunk_start; n <= chunk_end; n++) if (is_prime(n)) local_count++;\<close>
  The counter \<open>n\<close> is 64-bit and \<open>n++\<close> wraps, so the loop is a partial function.
\<close>

partial_function (option) count_chunk :: "u64 \<Rightarrow> u64 \<Rightarrow> u64 \<Rightarrow> u64 option" where
  "count_chunk n chunk_end local_count =
     (if n \<le> chunk_end
      then (case is_prime n of
              None \<Rightarrow> None
            | Some p \<Rightarrow> count_chunk (n + 1) chunk_end (if p then local_count + 1 else local_count))
      else Some local_count)"

declare count_chunk.simps [code]

text \<open>
  The partition, as the loop over \<open>i\<close> computes it. \<^verbatim>\<open>thread_count\<close> and \<open>i\<close> are
  \<^verbatim>\<open>uint32_t\<close> and are converted to 64 bits in \<^verbatim>\<open>(end - start + 1) / thread_count\<close> and
  \<^verbatim>\<open>i * chunk_size\<close>; all sums, differences and products are 64-bit. The upper end of the
  range is called \<open>stop\<close> here, \<open>end\<close> being a keyword.
\<close>

definition chunk_size :: "u64 \<Rightarrow> u64 \<Rightarrow> u32 \<Rightarrow> u64" where
  "chunk_size start stop thread_count = (stop - start + 1) div ucast thread_count"

definition chunk_start :: "u64 \<Rightarrow> u64 \<Rightarrow> u32 \<Rightarrow> u32 \<Rightarrow> u64" where
  "chunk_start start stop thread_count i =
     start + ucast i * chunk_size start stop thread_count"

definition chunk_end :: "u64 \<Rightarrow> u64 \<Rightarrow> u32 \<Rightarrow> u32 \<Rightarrow> u64" where
  "chunk_end start stop thread_count i =
     (if i = thread_count - 1 then stop
      else chunk_start start stop thread_count i + chunk_size start stop thread_count - 1)"

text \<open>The chunks in the order of the loop \<^verbatim>\<open>for (uint32_t i = 0; i < thread_count; i++)\<close>.\<close>

definition chunks :: "u64 \<Rightarrow> u64 \<Rightarrow> u32 \<Rightarrow> (u64 \<times> u64) list" where
  "chunks start stop thread_count =
     map (\<lambda>i. (chunk_start start stop thread_count (word_of_nat i),
                chunk_end start stop thread_count (word_of_nat i)))
       [0..<unat thread_count]"

text \<open>
  One thread per chunk. A thread touches the shared \<^verbatim>\<open>count\<close> once, by an atomic
  \<^verbatim>\<open>fetch_add\<close> of its local count, and \<^verbatim>\<open>count_primes\<close> reads \<^verbatim>\<open>count\<close> after joining all
  threads: what it returns is the 64-bit sum of the local counts, in whatever order the
  threads finish. A thread that never finishes is never joined, and the call does not
  return (\<open>None\<close>). \<^verbatim>\<open>thread_count == 0\<close> divides by zero before anything else.
\<close>

definition worker :: "u64 \<times> u64 \<Rightarrow> u64 option" where
  "worker chunk = count_chunk (fst chunk) (snd chunk) 0"

definition count_primes :: "u64 \<Rightarrow> u64 \<Rightarrow> u32 \<Rightarrow> (fault + u64) option" where
  "count_primes start stop thread_count =
     (if thread_count = 0 then Some (Inl DivisionByZero)
      else
        (case those (map worker (chunks start stop thread_count)) of
           None \<Rightarrow> None
         | Some local_counts \<Rightarrow>
             Some (Inr (fold (\<lambda>local_count count. count + local_count) local_counts 0))))"

text \<open>How many of the numbers \<open>a, \<dots>, b - 1\<close> the primality test accepts.\<close>

definition primes_between :: "nat \<Rightarrow> nat \<Rightarrow> nat" where
  "primes_between a b =
     length (filter (\<lambda>n. is_prime (word_of_nat n) = Some True) [a..<b])"

section \<open>The sieve \<^verbatim>\<open>simd_sieve\<close>\<close>

text \<open>
  \<^verbatim>\<open>std::vector<bool> is_composite(size, false)\<close> is a list of booleans; entry \<open>k\<close> stands
  for the odd number \<open>2 k + 1\<close>. \<^verbatim>\<open>operator[]\<close> does not check its index, so an index
  past the size is the fault \<open>OutOfBounds\<close>. All of \<open>limit\<close>, \<open>i\<close> and \<open>j\<close> are
  \<^verbatim>\<open>uint32_t\<close>: \<open>limit + 1\<close>, \<open>i * i\<close>, \<open>2 * i\<close>, \<open>j += 2 * i\<close> and \<open>i += 2\<close> are 32-bit, and
  each of the three is a partial function.

  The inner loop \<^verbatim>\<open>for (uint32_t j = i * i; j <= limit; j += 2 * i) is_composite[(j - 1) / 2] = true;\<close>
\<close>

partial_function (option) mark_multiples ::
  "u32 \<Rightarrow> u32 \<Rightarrow> u32 \<Rightarrow> bool list \<Rightarrow> (fault + bool list) option" where
  "mark_multiples limit i j is_composite =
     (if j \<le> limit
      then (let k = unat ((j - 1) div 2)
            in if k < length is_composite
               then mark_multiples limit i (j + 2 * i) (is_composite[k := True])
               else Some (Inl OutOfBounds))
      else Some (Inr is_composite))"

text \<open>The outer loop \<^verbatim>\<open>for (uint32_t i = 3; i * i <= limit; i += 2)\<close>.\<close>

partial_function (option) sieve_loop ::
  "u32 \<Rightarrow> u32 \<Rightarrow> bool list \<Rightarrow> (fault + bool list) option" where
  "sieve_loop limit i is_composite =
     (if i * i \<le> limit
      then (let k = unat ((i - 1) div 2)
            in if k < length is_composite
               then (if \<not> is_composite ! k
                     then (case mark_multiples limit i (i * i) is_composite of
                             None \<Rightarrow> None
                           | Some (Inl e) \<Rightarrow> Some (Inl e)
                           | Some (Inr is_composite') \<Rightarrow> sieve_loop limit (i + 2) is_composite')
                     else sieve_loop limit (i + 2) is_composite)
               else Some (Inl OutOfBounds))
      else Some (Inr is_composite))"

text \<open>The last loop \<^verbatim>\<open>for (uint32_t i = 3; i <= limit; i += 2)\<close>, which collects the primes.\<close>

partial_function (option) collect_primes ::
  "u32 \<Rightarrow> u32 \<Rightarrow> bool list \<Rightarrow> u32 list \<Rightarrow> (fault + u32 list) option" where
  "collect_primes limit i is_composite primes =
     (if i \<le> limit
      then (let k = unat ((i - 1) div 2)
            in if k < length is_composite
               then collect_primes limit (i + 2) is_composite
                      (if \<not> is_composite ! k then primes @ [i] else primes)
               else Some (Inl OutOfBounds))
      else Some (Inr primes))"

declare mark_multiples.simps [code]
declare sieve_loop.simps [code]
declare collect_primes.simps [code]

definition simd_sieve :: "u32 \<Rightarrow> (fault + u32 list) option" where
  "simd_sieve limit =
     (if limit < 2 then Some (Inr [])
      else
        (let size = unat ((limit + 1) div 2);
             is_composite = replicate size False;
             primes = [2]
         in case sieve_loop limit 3 is_composite of
              None \<Rightarrow> None
            | Some (Inl e) \<Rightarrow> Some (Inl e)
            | Some (Inr is_composite') \<Rightarrow> collect_primes limit 3 is_composite' primes))"

text \<open>
  The entries the outer loop has set when it arrives at \<open>i\<close>, as the proofs below show:
  the odd numbers \<open>n\<close> with an odd prime factor \<open>p < i\<close> such that \<open>p * p \<le> n\<close>.
\<close>

definition marked_by :: "nat \<Rightarrow> nat \<Rightarrow> bool" where
  "marked_by i n \<longleftrightarrow> (\<exists>p < i. prime_nat p \<and> 2 < p \<and> p dvd n \<and> p * p \<le> n)"

section \<open>The factorisation \<^verbatim>\<open>prime_factors\<close>\<close>

text \<open>
  \<^verbatim>\<open>prime_factors\<close> is a template over the integer type \<open>T\<close>. The repository instantiates
  it at two types: at \<^verbatim>\<open>uint64_t\<close> (\<^verbatim>\<open>prime_factors(840ULL)\<close> in the README and the runtime
  test) and at \<^verbatim>\<open>int\<close> (\<^verbatim>\<open>prime_factors(1234567890)\<close> in the stress test). Unsigned
  arithmetic wraps around and signed arithmetic must not overflow, so each of the two has
  a model of its own, with the suffix \<open>_u64\<close> or \<open>_int\<close>.

  In both, the atomic \<^verbatim>\<open>current_n\<close> is local to the call, so its \<^verbatim>\<open>load\<close> reads the last
  value stored and the \<^verbatim>\<open>compare_exchange_weak\<close> loop stores \<^verbatim>\<open>current_n / i\<close>.
\<close>

subsection \<open>At \<^verbatim>\<open>T = uint64_t\<close>\<close>

text \<open>\<^verbatim>\<open>while (n % 2 == 0) { factors.push_back(2); n /= 2; }\<close>\<close>

partial_function (option) divide_twos_u64 :: "u64 \<Rightarrow> u64 list \<Rightarrow> (u64 \<times> u64 list) option" where
  "divide_twos_u64 n factors =
     (if n mod 2 = 0 then divide_twos_u64 (n div 2) (factors @ [2]) else Some (n, factors))"

text \<open>\<^verbatim>\<open>while (current_n % i == 0) { factors.push_back(i); current_n = current_n / i; }\<close>\<close>

partial_function (option) divide_out_u64 :: "u64 \<Rightarrow> u64 \<Rightarrow> u64 list \<Rightarrow> (u64 \<times> u64 list) option" where
  "divide_out_u64 i current_n factors =
     (if current_n mod i = 0 then divide_out_u64 i (current_n div i) (factors @ [i])
      else Some (current_n, factors))"

text \<open>
  \<^verbatim>\<open>for (T i = 3; i * i <= current_n; i += 2)\<close> around the loop above. Here too \<open>i\<close> is
  odd in every round, and \<^verbatim>\<open>%\<close> and \<^verbatim>\<open>/\<close> never divide by zero.
\<close>

partial_function (option) odd_factors_u64 :: "u64 \<Rightarrow> u64 \<Rightarrow> u64 list \<Rightarrow> (u64 \<times> u64 list) option" where
  "odd_factors_u64 i current_n factors =
     (if i * i \<le> current_n
      then (case divide_out_u64 i current_n factors of
              None \<Rightarrow> None
            | Some (current_n', factors') \<Rightarrow> odd_factors_u64 (i + 2) current_n' factors')
      else Some (current_n, factors))"

declare divide_twos_u64.simps [code]
declare divide_out_u64.simps [code]
declare odd_factors_u64.simps [code]

definition prime_factors_u64 :: "u64 \<Rightarrow> u64 list option" where
  "prime_factors_u64 n =
     (case divide_twos_u64 n [] of
        None \<Rightarrow> None
      | Some (n', factors) \<Rightarrow>
          (case odd_factors_u64 3 n' factors of
             None \<Rightarrow> None
           | Some (current_n, factors') \<Rightarrow>
               Some (if 2 < current_n then factors' @ [current_n] else factors')))"

subsection \<open>At \<^verbatim>\<open>T = int\<close>\<close>

text \<open>
  \<^verbatim>\<open>int\<close> has 32 bits on the platforms the header supports. An argument is a 32-bit word
  read in two's complement by \<open>sint\<close>; the values the function computes with are integers
  between \<^verbatim>\<open>INT_MIN\<close> and \<^verbatim>\<open>INT_MAX\<close>. \<^verbatim>\<open>%\<close> and \<^verbatim>\<open>/\<close> truncate towards zero (\<open>smod\<close> and
  \<open>sdiv\<close>); they cannot overflow here, the divisor being 2 or at least 3. A product
  \<open>i * i\<close> or a sum \<open>i + 2\<close> above \<^verbatim>\<open>INT_MAX\<close> is a signed overflow, which has no defined
  result: the fault \<open>SignedOverflow\<close>.
\<close>

type_synonym i32 = "32 word"

definition INT_MAX :: int where
  "INT_MAX = 2147483647"

text \<open>\<^verbatim>\<open>while (n % 2 == 0) { factors.push_back(2); n /= 2; }\<close>\<close>

partial_function (option) divide_twos_int :: "int \<Rightarrow> int list \<Rightarrow> (int \<times> int list) option" where
  "divide_twos_int n factors =
     (if n smod 2 = 0 then divide_twos_int (n sdiv 2) (factors @ [2]) else Some (n, factors))"

text \<open>\<^verbatim>\<open>while (current_n % i == 0) { factors.push_back(i); current_n = current_n / i; }\<close>\<close>

partial_function (option) divide_out_int :: "int \<Rightarrow> int \<Rightarrow> int list \<Rightarrow> (int \<times> int list) option" where
  "divide_out_int i current_n factors =
     (if current_n smod i = 0 then divide_out_int i (current_n sdiv i) (factors @ [i])
      else Some (current_n, factors))"

text \<open>
  \<^verbatim>\<open>for (T i = 3; i * i <= current_n; i += 2)\<close>: the product of the loop test is computed
  first, in every round, and the sum \<open>i += 2\<close> after the body.
\<close>

partial_function (option) odd_factors_int ::
  "int \<Rightarrow> int \<Rightarrow> int list \<Rightarrow> (fault + int \<times> int list) option" where
  "odd_factors_int i current_n factors =
     (if INT_MAX < i * i then Some (Inl SignedOverflow)
      else if i * i \<le> current_n
      then (case divide_out_int i current_n factors of
              None \<Rightarrow> None
            | Some (current_n', factors') \<Rightarrow>
                if INT_MAX < i + 2 then Some (Inl SignedOverflow)
                else odd_factors_int (i + 2) current_n' factors')
      else Some (Inr (current_n, factors)))"

declare divide_twos_int.simps [code]
declare divide_out_int.simps [code]
declare odd_factors_int.simps [code]

definition prime_factors_int :: "i32 \<Rightarrow> (fault + int list) option" where
  "prime_factors_int n =
     (case divide_twos_int (sint n) [] of
        None \<Rightarrow> None
      | Some (n', factors) \<Rightarrow>
          (case odd_factors_int 3 n' factors of
             None \<Rightarrow> None
           | Some (Inl e) \<Rightarrow> Some (Inl e)
           | Some (Inr (current_n, factors')) \<Rightarrow>
               Some (Inr (if 2 < current_n then factors' @ [current_n] else factors'))))"

section \<open>Constants of the proofs\<close>

text \<open>
  An odd number whose 64-bit square is \<open>2\<^sup>6\<^sup>4 - 7\<close>. A loop that steps through the odd
  numbers while \<open>i * i \<le> n\<close> holds in 64 bits leaves at this \<open>i\<close> at the latest, for every
  \<open>n \<le> 2\<^sup>6\<^sup>4 - 8\<close>.
\<close>

definition root_minus_7 :: nat where
  "root_minus_7 = 1852311383259529397"

text \<open>
  None of the \<open>k\<close> numbers \<open>i\<close>, \<open>i + s\<close>, \<open>i + 2 s\<close>, \<dots> divides \<open>n\<close>. The proofs evaluate
  it to show that \<open>2\<^sup>3\<^sup>1 - 1\<close> has no divisor of the form \<open>62 j + 1\<close> below its square root.
\<close>

fun no_divisor_from :: "int \<Rightarrow> int \<Rightarrow> int \<Rightarrow> nat \<Rightarrow> bool" where
  "no_divisor_from n i s 0 = True"
| "no_divisor_from n i s (Suc k) = (n mod i \<noteq> 0 \<and> no_divisor_from n (i + s) s k)"


section \<open>Proofs: primality test and cache\<close>

subsection \<open>The primality test returns\<close>


lemma odd_step2: "a < n \<Longrightarrow> odd a \<Longrightarrow> odd n \<Longrightarrow> a + 2 \<le> (n::nat)"
  by (auto elim!: oddE)

lemma odd_step6:
  "a + 2 < n \<Longrightarrow> a mod 3 = 2 \<Longrightarrow> n mod 3 \<noteq> 0 \<Longrightarrow> odd a \<Longrightarrow> odd n \<Longrightarrow> a + 6 \<le> (n::nat)"
  by (auto elim!: oddE) arith

lemma unat_add_small:
  fixes i :: u64
  assumes "unat i + k \<le> unat (n :: u64)"
  shows "unat (i + of_nat k) = unat i + k"
proof -
  have "unat n < 2 ^ 64" using unsigned_less [of n] by simp
  then have "unat i + k < 2 ^ 64" using assms by linarith
  then show ?thesis
    by (simp add: unat_word_ariths unat_of_nat take_bit_eq_mod)
qed

lemma is_prime_loop_terminates:
  assumes "unat i \<le> unat n" "odd (unat i)" "unat i mod 3 = 2"
    "odd (unat n)" "unat n mod 3 \<noteq> 0"
  shows "\<exists>b. is_prime_loop n i = Some b"
  using assms
proof (induction "unat n - unat i" arbitrary: i rule: less_induct)
  case less
  show ?case
  proof (cases "i * i \<le> n \<and> \<not> (n mod i = 0 \<or> n mod (i + 2) = 0)")
    case False
    then show ?thesis
      by (subst is_prime_loop.simps) auto
  next
    case True
    then have a: "n mod i \<noteq> 0" and b: "n mod (i + 2) \<noteq> 0" by auto
    have "i \<noteq> n" using a by auto
    then have lt: "unat i < unat n" using less.prems(1) by (simp add: word_unat_eq_iff)
    have "unat i + 2 \<le> unat n" using lt less.prems by (intro odd_step2)
    then have u2: "unat (i + 2) = unat i + 2" using unat_add_small [of i 2 n] by simp
    have "i + 2 \<noteq> n" using b by auto
    then have "unat i + 2 \<noteq> unat n" using u2 by (metis word_unat_eq_iff)
    then have "unat i + 2 < unat n" using \<open>unat i + 2 \<le> unat n\<close> by simp
    then have le6: "unat i + 6 \<le> unat n" using less.prems by (intro odd_step6)
    then have u6: "unat (i + 6) = unat i + 6" using unat_add_small [of i 6 n] by simp
    have "\<exists>b. is_prime_loop n (i + 6) = Some b"
    proof (rule less.hyps)
      show "unat n - unat (i + 6) < unat n - unat i" using u6 le6 by simp
      show "unat (i + 6) \<le> unat n" using u6 le6 by simp
      show "odd (unat (i + 6))" using u6 less.prems(2) by simp
      show "unat (i + 6) mod 3 = 2" using u6 less.prems(3) by (simp add: mod_simps) arith
    qed (use less.prems in auto)
    then show ?thesis using True
      by (subst is_prime_loop.simps) auto
  qed
qed

lemma is_prime_total: "\<exists>b. is_prime n = Some b"
proof -
  have "\<exists>b. is_prime_loop n 5 = Some b"
    if "\<not> n \<le> 3" "n mod 2 \<noteq> 0" "n mod 3 \<noteq> 0"
  proof (rule is_prime_loop_terminates)
    have n3: "3 < unat n" using that(1) by (simp add: word_le_nat_alt)
    have m2: "unat n mod 2 \<noteq> 0" using that(2) by (simp add: word_unat_eq_iff unat_mod)
    show m3: "unat n mod 3 \<noteq> 0" using that(3) by (simp add: word_unat_eq_iff unat_mod)
    show o: "odd (unat n)" using m2 by (simp add: odd_iff_mod_2_eq_one)
    have "unat n \<noteq> 4" using o by auto
    then show "unat (5::u64) \<le> unat n" using n3 by simp
    show "unat (5::u64) mod 3 = 2" by simp
    show "odd (unat (5::u64))" by simp
  qed
  then show ?thesis by (auto simp: is_prime_def)
qed

subsection \<open>The cache\<close>


lemma find_key_Some:
  "find (\<lambda>entry. fst entry = n) cache = Some e \<Longrightarrow> e \<in> set cache \<and> fst e = n"
  by (induction cache) (auto split: if_splits)

lemma find_key_None:
  "find (\<lambda>entry. fst entry = n) cache = None \<longleftrightarrow> n \<notin> fst ` set cache"
  by (induction cache) auto

lemma is_prime_cached_hit:
  "find (\<lambda>entry. fst entry = n) cache = Some (k, v) \<Longrightarrow> is_prime_cached cache n = Some (v, cache)"
  by (simp add: is_prime_cached_def)

lemma is_prime_cached_miss:
  assumes "n \<notin> fst ` set cache"
  shows "\<exists>r. is_prime n = Some r \<and> is_prime_cached cache n =
      Some (r, (if CACHE_SIZE \<le> length cache then tl cache else cache) @ [(n, r)])"
proof -
  obtain r where "is_prime n = Some r" using is_prime_total by blast
  moreover have "find (\<lambda>entry. fst entry = n) cache = None" using assms by (simp add: find_key_None)
  ultimately show ?thesis by (simp add: is_prime_cached_def)
qed

lemma cache_sound_step:
  assumes "cache_sound cache" "is_prime_cached cache n = Some (r, cache')"
  shows "cache_sound cache'"
proof (cases "find (\<lambda>entry. fst entry = n) cache")
  case (Some e)
  then show ?thesis using assms by (simp add: is_prime_cached_def)
next
  case None
  then have "n \<notin> fst ` set cache" by (simp add: find_key_None)
  from is_prime_cached_miss [OF this] obtain r' where r': "is_prime n = Some r'"
    and "is_prime_cached cache n =
      Some (r', (if CACHE_SIZE \<le> length cache then tl cache else cache) @ [(n, r')])"
    by blast
  with assms(2) have c': "cache' = (if CACHE_SIZE \<le> length cache then tl cache else cache) @ [(n, r')]"
    by auto
  have "set (tl cache) \<subseteq> set cache" by (cases cache) auto
  then show ?thesis using assms(1) r' c' by (auto simp: cache_sound_def)
qed

lemma cache_reachable_sound: "cache_reachable cache \<Longrightarrow> cache_sound cache"
proof (induction rule: cache_reachable.induct)
  case initial
  show ?case by (simp add: cache_sound_def)
next
  case (call cache n result cache')
  then show ?case by (blast intro: cache_sound_step)
qed

lemma is_prime_cached_sound:
  assumes "cache_sound cache"
  shows "\<exists>cache'. is_prime_cached cache n = Some (the (is_prime n), cache')"
proof (cases "find (\<lambda>entry. fst entry = n) cache")
  case None
  then show ?thesis using is_prime_total [of n] by (auto simp: is_prime_cached_def)
next
  case (Some e)
  then have "e \<in> set cache" "fst e = n" using find_key_Some [of n cache e] by auto
  then have "is_prime n = Some (snd e)" using assms by (auto simp: cache_sound_def)
  then show ?thesis using Some by (simp add: is_prime_cached_def)
qed

text \<open>
  Claim C3. Whatever calls the thread made before, \<^verbatim>\<open>is_prime_cached(n)\<close> returns, and
  returns what \<^verbatim>\<open>is_prime(n)\<close> returns. On a hit the answer is the stored value and the
  vector is left as it was: the second part holds for every vector, also one whose
  stored value would differ from \<^verbatim>\<open>is_prime(n)\<close>, so the answer of a hit is read from
  the vector and not computed.
\<close>

theorem is_prime_cached_agrees:
  assumes "cache_reachable cache"
  shows "(\<exists>result cache'. is_prime n = Some result \<and>
            is_prime_cached cache n = Some (result, cache')) \<and>
         (\<forall>k v. find (\<lambda>entry. fst entry = n) cache = Some (k, v) \<longrightarrow>
            is_prime_cached cache n = Some (v, cache))"
proof -
  obtain result where r: "is_prime n = Some result" using is_prime_total by blast
  have "cache_sound cache" using assms by (rule cache_reachable_sound)
  from is_prime_cached_sound [OF this, of n] r
  have "\<exists>cache'. is_prime_cached cache n = Some (result, cache')" by simp
  with r show ?thesis by (auto simp: is_prime_cached_hit)
qed

theorem is_prime_cached_agrees_witness:
  "cache_reachable [(7, True)] \<and> is_prime 7 = Some True \<and>
   is_prime_cached [(7, True)] 7 = Some (True, [(7, True)])"
proof -
  have "is_prime_cached [] 7 = Some (True, [(7, True)])" by code_simp
  then have r: "cache_reachable [(7, True)]"
    using cache_reachable.call [OF cache_reachable.initial] by blast
  have p: "is_prime 7 = Some True" by code_simp
  show ?thesis using is_prime_cached_agrees [OF r, of 7] r p by auto
qed

lemma cache_reachable_length: "cache_reachable cache \<Longrightarrow> length cache \<le> CACHE_SIZE"
proof (induction rule: cache_reachable.induct)
  case initial
  show ?case by simp
next
  case (call cache n result cache')
  show ?case
  proof (cases "n \<in> fst ` set cache")
    case True
    then obtain e where "find (\<lambda>entry. fst entry = n) cache = Some e"
      using find_key_None [of n cache] by auto
    then have "cache' = cache" using call.hyps(2) by (simp add: is_prime_cached_def)
    then show ?thesis using call.IH by simp
  next
    case False
    from is_prime_cached_miss [OF this] call.hyps(2)
    have "cache' = (if CACHE_SIZE \<le> length cache then tl cache else cache) @ [(n, result)]"
      by auto
    then show ?thesis using call.IH by (auto simp: CACHE_SIZE_def)
  qed
qed

lemma is_prime_cached_hit_unchanged:
  assumes "n \<in> fst ` set cache"
  shows "\<exists>v. is_prime_cached cache n = Some (v, cache)"
proof -
  obtain e where "find (\<lambda>entry. fst entry = n) cache = Some e"
    using assms find_key_None [of n cache] by auto
  then show ?thesis by (simp add: is_prime_cached_def)
qed

lemma cached_calls_distinct:
  assumes "distinct (map fst cache @ ns)" "length cache \<le> CACHE_SIZE"
  shows "\<exists>cache'. cached_calls cache ns = Some cache' \<and>
           map fst cache' = drop (length cache + length ns - CACHE_SIZE) (map fst cache @ ns)"
  using assms
proof (induction ns arbitrary: cache)
  case Nil
  then show ?case by simp
next
  case (Cons n ns)
  have "n \<notin> fst ` set cache" using Cons.prems(1) by auto
  from is_prime_cached_miss [OF this] obtain r where
    step: "is_prime_cached cache n =
      Some (r, (if CACHE_SIZE \<le> length cache then tl cache else cache) @ [(n, r)])"
    by blast
  define c1 where "c1 = (if CACHE_SIZE \<le> length cache then tl cache else cache) @ [(n, r)]"
  have d1: "distinct (map fst c1 @ ns)"
    using Cons.prems(1) by (cases cache) (auto simp: c1_def)
  have l1: "length c1 \<le> CACHE_SIZE"
    using Cons.prems(2) by (auto simp: c1_def CACHE_SIZE_def)
  from Cons.IH [OF d1 l1] obtain cache' where
    run: "cached_calls c1 ns = Some cache'"
    and keys: "map fst cache' = drop (length c1 + length ns - CACHE_SIZE) (map fst c1 @ ns)"
    by blast
  have "drop (length c1 + length ns - CACHE_SIZE) (map fst c1 @ ns) =
        drop (length cache + length (n # ns) - CACHE_SIZE) (map fst cache @ n # ns)"
  proof (cases "CACHE_SIZE \<le> length cache")
    case False
    then show ?thesis by (simp add: c1_def)
  next
    case True
    then have len: "length cache = CACHE_SIZE" using Cons.prems(2) by simp
    then obtain e cs where cache: "cache = e # cs" by (cases cache) (auto simp: CACHE_SIZE_def)
    show ?thesis using len by (simp add: c1_def cache)
  qed
  with keys run step show ?case by (simp add: c1_def)
qed

lemma cached_calls_reachable:
  "cache_reachable cache \<Longrightarrow> cached_calls cache ns = Some cache' \<Longrightarrow> cache_reachable cache'"
proof (induction ns arbitrary: cache)
  case Nil
  then show ?case by simp
next
  case (Cons n ns)
  then show ?case
    by (auto split: option.splits intro: cache_reachable.call)
qed

lemma distinct_word_of_nat_upt:
  "k \<le> 2 ^ 64 \<Longrightarrow> distinct (map word_of_nat [0..<k] :: u64 list)"
  by (auto simp: distinct_map inj_on_def word_of_nat_eq_iff take_bit_nat_eq_self)

text \<open>
  Claim C4. A vector the thread can hold has at most 1000 entries. A miss on a full
  vector removes the oldest entry only and appends the new one; a hit leaves the vector
  as it is, in the same order. After \<open>CACHE_SIZE + 1\<close> distinct numbers asked in order
  from an empty vector, the first is gone and the vector holds the other 1000, oldest
  first.
\<close>

theorem cache_fifo_bounded:
  "(cache_reachable cache \<longrightarrow> length cache \<le> 1000) \<and>
   (n \<notin> fst ` set cache \<and> length cache = 1000 \<longrightarrow>
      (\<exists>r. is_prime_cached cache n = Some (r, tl cache @ [(n, r)]))) \<and>
   (m \<in> fst ` set cache \<longrightarrow> (\<exists>v. is_prime_cached cache m = Some (v, cache))) \<and>
   (distinct ns \<and> length ns = CACHE_SIZE + 1 \<longrightarrow>
      (\<exists>cache'. cached_calls [] ns = Some cache' \<and> hd ns \<notin> fst ` set cache' \<and>
         map fst cache' = tl ns))"
proof (intro conjI impI)
  assume "cache_reachable cache"
  then show "length cache \<le> 1000" using cache_reachable_length by (simp add: CACHE_SIZE_def)
next
  assume a: "n \<notin> fst ` set cache \<and> length cache = 1000"
  then show "\<exists>r. is_prime_cached cache n = Some (r, tl cache @ [(n, r)])"
    using is_prime_cached_miss [of n cache] by (auto simp: CACHE_SIZE_def)
next
  assume "m \<in> fst ` set cache"
  then show "\<exists>v. is_prime_cached cache m = Some (v, cache)"
    by (rule is_prime_cached_hit_unchanged)
next
  assume a: "distinct ns \<and> length ns = CACHE_SIZE + 1"
  then obtain m ms where ns: "ns = m # ms" by (cases ns) auto
  from cached_calls_distinct [of "[]" ns] a obtain cache' where
    run: "cached_calls [] ns = Some cache'" and keys: "map fst cache' = drop 1 ns"
    by auto
  have "map fst cache' = tl ns" using keys by (simp add: drop_Suc)
  moreover have "hd ns \<notin> set (tl ns)" using a ns by auto
  ultimately show "\<exists>cache'. cached_calls [] ns = Some cache' \<and> hd ns \<notin> fst ` set cache' \<and>
         map fst cache' = tl ns"
    using run by (metis set_map)
qed

theorem cache_fifo_bounded_witness:
  "\<exists>cache. cached_calls [] (map word_of_nat [0..<1000]) = Some cache \<and>
     cache_reachable cache \<and> length cache = 1000 \<and>
     1000 \<notin> fst ` set cache \<and> 5 \<in> fst ` set cache \<and>
     distinct (map word_of_nat [0..<1001] :: u64 list) \<and>
     length (map word_of_nat [0..<1001] :: u64 list) = CACHE_SIZE + 1 \<and>
     (\<exists>r. is_prime_cached cache 1000 = Some (r, tl cache @ [(1000, r)])) \<and>
     (\<exists>v. is_prime_cached cache 5 = Some (v, cache)) \<and>
     (\<exists>cache'. cached_calls [] (map word_of_nat [0..<1001]) = Some cache' \<and>
        (0::u64) \<notin> fst ` set cache' \<and>
        map fst cache' = map word_of_nat [1..<1001])"
proof -
  let ?ks = "map word_of_nat [0..<1000] :: u64 list"
  let ?ns = "map word_of_nat [0..<1001] :: u64 list"
  have d0: "distinct ?ks" by (rule distinct_word_of_nat_upt) simp
  have d1: "distinct ?ns" by (rule distinct_word_of_nat_upt) simp
  have l1: "length ?ns = CACHE_SIZE + 1" by (simp add: CACHE_SIZE_def)
  from cached_calls_distinct [of "[]" ?ks] d0 obtain cache where
    run: "cached_calls [] ?ks = Some cache" and keys: "map fst cache = ?ks"
    by (auto simp: CACHE_SIZE_def)
  have r: "cache_reachable cache"
    using cached_calls_reachable [OF cache_reachable.initial run] .
  have len: "length cache = 1000" using keys by (metis length_map length_upt diff_zero)
  have set_keys: "fst ` set cache = set ?ks" using keys by (metis set_map)
  have "(1000::u64) = word_of_nat 1000" by simp
  have miss: "(1000::u64) \<notin> fst ` set cache"
  proof
    assume "1000 \<in> fst ` set cache"
    then obtain k where "k < 1000" "(1000::u64) = word_of_nat k"
      unfolding set_keys by auto
    then have "unat (1000::u64) = unat (word_of_nat k :: u64)" by simp
    then show False using \<open>k < 1000\<close> by (simp add: unat_of_nat take_bit_nat_eq_self)
  qed
  have "(5::u64) = word_of_nat 5" by simp
  then have hit: "(5::u64) \<in> fst ` set cache"
    unfolding set_keys by (metis (no_types, lifting) atLeastLessThan_iff imageI set_upt set_map
        zero_le numeral_less_iff semiring_norm(76,77,78,79,80,81))
  have tl_ns: "tl ?ns = map word_of_nat [1..<1001]"
    by (simp add: upt_conv_Cons [of 0] del: upt_Suc)
  have hd_ns: "hd ?ns = 0" by (simp add: upt_conv_Cons [of 0] del: upt_Suc)
  show ?thesis
    using cache_fifo_bounded [of cache 1000 5 ?ns] run r len miss hit d1 l1
    unfolding tl_ns hd_ns by blast
qed


section \<open>Proofs: the Fibonacci coroutine\<close>


lemma fib_from_fib: "fib_from (fib n) (fib (Suc n)) k = fib (n + k)"
proof (induction k arbitrary: n)
  case 0
  show ?case by simp
next
  case (Suc k)
  have "fib_from (fib (Suc n)) (fib (Suc (Suc n))) k = fib (Suc n + k)" by (rule Suc.IH)
  then show ?case by (simp add: add.commute)
qed

lemma fib_eq_fib_from: "fib k = fib_from 0 1 k"
  using fib_from_fib [of 0 k] by simp

lemma fib_from_numeral: "fib_from a b (numeral k) = fib_from b (a + b) (pred_numeral k)"
  by (simp add: numeral_eq_Suc)


lemma fib_mono: "fib n \<le> fib (Suc n)"
  by (induction n rule: fib.induct) auto

lemma fib_mono_le: "m \<le> n \<Longrightarrow> fib m \<le> fib n"
  by (induction n) (auto simp: le_Suc_eq intro: order_trans [OF _ fib_mono])

lemma unat_word_of_nat_le:
  fixes m :: u64
  assumes "k \<le> unat m"
  shows "unat (word_of_nat k :: u64) = k"
proof -
  have "unat m < 2 ^ 64" using unsigned_less [of m] by simp
  then have "k < 2 ^ 64" using assms by simp
  then show ?thesis by (simp add: unat_of_nat take_bit_nat_eq_self)
qed

lemma word_of_nat_less_iff:
  fixes m :: u64
  assumes "k \<le> unat m"
  shows "word_of_nat k < m \<longleftrightarrow> k < unat m"
  by (simp add: word_less_nat_alt unat_word_of_nat_le [OF assms])

lemma fib_next_initial:
  assumes "m \<noteq> 0"
  shows "fib_next (fibonacci_sequence m) = Inr (0, fib_yielded m 0)"
proof -
  have "0 < m" using assms by (simp add: word_greater_zero_iff)
  then show ?thesis
    by (simp add: fib_next_def fib_resume_def fibonacci_sequence_def fib_loop_def fib_yielded_def)
qed

lemma fib_next_yielded:
  assumes "Suc j < unat m"
  shows "fib_next (fib_yielded m j) = Inr (word_of_nat (fib (Suc j)), fib_yielded m (Suc j))"
proof -
  have i: "(word_of_nat j :: u64) + 1 = word_of_nat (Suc j)" by simp
  have lt: "(word_of_nat (Suc j) :: u64) < m"
    using assms by (simp add: word_of_nat_less_iff del: of_nat_Suc)
  have b: "(word_of_nat (fib j) :: u64) + word_of_nat (fib (Suc j)) = word_of_nat (fib (Suc (Suc j)))"
    by (simp add: add.commute)
  show ?thesis
    unfolding fib_next_def fib_resume_def fib_loop_def fib_yielded_def
    by (simp add: i lt b del: of_nat_Suc of_nat_add fib.simps)
qed

lemma fib_next_last:
  assumes "Suc j = unat m"
  shows "fib_next (fib_yielded m j) =
    Inr (word_of_nat (fib j), (fib_yielded m j)\<lparr>fib_frame := FibFinal\<rparr>)"
proof -
  have "(word_of_nat (Suc j) :: u64) = m" using assms by (simp del: of_nat_Suc)
  then have i: "(word_of_nat j :: u64) + 1 = m" by (simp add: add.commute)
  show ?thesis
    unfolding fib_next_def fib_resume_def fib_loop_def fib_yielded_def
    by (simp add: i del: of_nat_Suc of_nat_add fib.simps)
qed

lemma fib_nexts_run:
  assumes "k < unat m"
  shows "fib_nexts (Suc k) (fibonacci_sequence m) =
    Inr (map (\<lambda>j. word_of_nat (fib j)) [0..<Suc k], fib_yielded m k)"
  using assms
proof (induction k)
  case 0
  then have "m \<noteq> 0" by (auto simp: unat_eq_0)
  then show ?case by (simp add: fib_next_initial)
next
  case (Suc k)
  then have "fib_nexts (Suc k) (fibonacci_sequence m) =
    Inr (map (\<lambda>j. word_of_nat (fib j)) [0..<Suc k], fib_yielded m k)" by simp
  then show ?case using Suc.prems
    by (simp add: fib_nexts.simps(2) [of "Suc k"] fib_next_yielded del: fib_nexts.simps)
qed

lemma fib_nexts_finish:
  assumes "unat m = Suc k"
  shows "fib_nexts (Suc (Suc k)) (fibonacci_sequence m) =
    Inr (map (\<lambda>j. word_of_nat (fib j)) [0..<Suc k] @ [word_of_nat (fib k)],
      (fib_yielded m k)\<lparr>fib_frame := FibFinal\<rparr>)"
proof -
  have "fib_nexts (Suc k) (fibonacci_sequence m) =
    Inr (map (\<lambda>j. word_of_nat (fib j)) [0..<Suc k], fib_yielded m k)"
    using assms by (intro fib_nexts_run) simp
  then show ?thesis using assms
    by (simp add: fib_nexts.simps(2) [of "Suc k"] fib_next_last del: fib_nexts.simps)
qed

lemma fib_nexts_zero_count:
  "fib_nexts (Suc 0) (fibonacci_sequence 0) = Inl IndeterminateValue"
  by (simp add: fib_next_def fib_resume_def fibonacci_sequence_def fib_loop_def)


lemma fib_add: "fib (Suc (n + m)) = fib (Suc n) * fib (Suc m) + fib n * fib m"
proof (induction n rule: fib.induct)
  case 1
  show ?case by simp
next
  case 2
  show ?case by simp
next
  case (3 n)
  then show ?case by (simp add: algebra_simps)
qed

lemma fib_double:
  assumes "fib n = a" "fib (Suc n) = b"
  shows "fib (Suc (n + n)) = b * b + a * a"
    and "fib (Suc (Suc (n + n))) = b * (a + b) + a * b"
proof -
  show "fib (Suc (n + n)) = b * b + a * a"
    using fib_add [of n n] assms by simp
  have "fib (Suc (n + Suc n)) = fib (Suc n) * fib (Suc (Suc n)) + fib n * fib (Suc n)"
    by (rule fib_add)
  then show "fib (Suc (Suc (n + n))) = b * (a + b) + a * b"
    using assms by (simp add: add.commute)
qed

lemma fib_11: "fib 11 = 89" "fib 12 = 144"
  by (simp_all add: fib_eq_fib_from fib_from_numeral)

lemma fib_23: "fib 23 = 28657" "fib 24 = 46368"
proof -
  have n: "Suc (11 + 11) = (23::nat)" "Suc (Suc (11 + 11)) = (24::nat)" "Suc 11 = (12::nat)"
    by simp_all
  show "fib 23 = 28657" "fib 24 = 46368"
    using fib_double [of 11 89 144] fib_11 unfolding n by simp_all
qed

lemma fib_46: "fib 46 = 1836311903"
proof -
  have n: "Suc (Suc (22 + 22)) = (46::nat)" "Suc 22 = (23::nat)" "Suc (Suc 22) = (24::nat)"
    by simp_all
  have "fib (Suc (Suc 22)) = fib (Suc 22) + fib 22" by (rule fib.simps(3))
  then have "fib 22 = 17711" unfolding n using fib_23 by simp
  then show ?thesis
    using fib_double(2) [of 22 17711 28657] fib_23 unfolding n by simp
qed

lemma fib_47: "fib 47 = 2971215073" "fib 48 = 4807526976"
proof -
  have n: "Suc (23 + 23) = (47::nat)" "Suc (Suc (23 + 23)) = (48::nat)" "Suc 23 = (24::nat)"
    by simp_all
  show "fib 47 = 2971215073" "fib 48 = 4807526976"
    using fib_double [of 23 28657 46368] fib_23 unfolding n by simp_all
qed

lemma fib_93: "fib 93 = 12200160415121876738"
proof -
  have n: "Suc (46 + 46) = (93::nat)" "Suc 46 = (47::nat)" by simp_all
  show ?thesis
    using fib_double(1) [of 46 1836311903 2971215073] fib_46 fib_47 unfolding n by simp
qed

lemma fib_94: "fib 94 = 19740274219868223167"
proof -
  have n: "Suc (Suc (46 + 46)) = (94::nat)" "Suc 46 = (47::nat)" by simp_all
  show ?thesis
    using fib_double(2) [of 46 1836311903 2971215073] fib_46 fib_47 unfolding n by simp
qed

lemma fib_first_10:
  "map (\<lambda>j. word_of_nat (fib j)) [0..<10] = [0, 1, 1, 2, 3, 5, 8, 13, 21, 34 :: u64]"
  by (simp add: upt_rec fib_eq_fib_from fib_from_numeral)

lemma fib_small: "j \<le> 93 \<Longrightarrow> fib j < 2 ^ 64"
  using fib_mono_le [of j 93] by (simp add: fib_93)

lemma fib_values_run:
  assumes "k \<le> unat m"
  shows "fib_values m k = Inr (map (\<lambda>j. word_of_nat (fib j)) [0..<k])"
proof (cases k)
  case 0
  then show ?thesis by (simp add: fib_values_def)
next
  case (Suc k')
  then have "k' < unat m" using assms by simp
  from fib_nexts_run [OF this] show ?thesis
    unfolding fib_values_def Suc by (simp del: fib_nexts.simps upt_Suc)
qed

text \<open>
  The same at every count of at least 1: \<^verbatim>\<open>done()\<close> is false after each of the first
  \<open>max_count\<close> calls and true after one call more, which returns the last value again.
\<close>

lemma fib_done_after_run:
  assumes "m \<noteq> 0" "k \<le> unat m"
  shows "fib_done_after m k = Inr False"
proof (cases k)
  case 0
  then show ?thesis by (simp add: fib_done_after_def fib_done_def fibonacci_sequence_def)
next
  case (Suc k')
  then have "k' < unat m" using assms by simp
  from fib_nexts_run [OF this] show ?thesis
    unfolding fib_done_after_def Suc
    by (simp add: fib_done_def fib_yielded_def del: fib_nexts.simps upt_Suc)
qed

lemma fib_done_after_finish:
  assumes "m \<noteq> 0"
  shows "fib_done_after m (unat m + 1) = Inr True"
    and "fib_values m (unat m + 1) =
      Inr (map (\<lambda>j. word_of_nat (fib j)) [0..<unat m] @ [word_of_nat (fib (unat m - 1))])"
proof -
  obtain k where k: "unat m = Suc k"
    using assms by (cases "unat m") (auto simp: unat_eq_0)
  from fib_nexts_finish [OF this]
  show "fib_done_after m (unat m + 1) = Inr True"
    unfolding fib_done_after_def k by (simp add: fib_done_def del: fib_nexts.simps upt_Suc)
  from fib_nexts_finish [OF k]
  show "fib_values m (unat m + 1) =
      Inr (map (\<lambda>j. word_of_nat (fib j)) [0..<unat m] @ [word_of_nat (fib (unat m - 1))])"
    unfolding fib_values_def k by (simp del: fib_nexts.simps upt_Suc)
qed

lemma fib_values_same:
  assumes "k \<le> unat max_count" "k \<le> unat c"
  shows "fib_values max_count k = fib_values c k"
  using assms by (simp add: fib_values_run)

text \<open>
  Claim C5 fails on the code at \<open>max_count = 5\<close>. After five calls of \<^verbatim>\<open>next()\<close> the
  coroutine is suspended at its fifth \<^verbatim>\<open>co_yield\<close> and \<^verbatim>\<open>done()\<close> is still false. The README
  and the test guard \<^verbatim>\<open>next()\<close> by \<^verbatim>\<open>!fib.done()\<close>; a caller who relies on that guard calls
  a sixth time, gets the fifth value 3 once more, and only then sees \<^verbatim>\<open>done()\<close> true.
\<close>

theorem fib_done_false_after_count_calls:
  "fib_done_after 5 5 = Inr False \<and>
   fib_values 5 6 = Inr [0, 1, 1, 2, 3, 3] \<and>
   fib_done_after 5 6 = Inr True"
proof (intro conjI)
  show "fib_done_after 5 5 = Inr False" by code_simp
  show "fib_values 5 6 = Inr [0, 1, 1, 2, 3, 3]" by code_simp
  show "fib_done_after 5 6 = Inr True" by code_simp
qed

text \<open>
  Claim C7, as stated, at \<open>max_count = 95\<close>: the 95th value is not \<open>F(94)\<close>. The sum
  \<^verbatim>\<open>temp + b\<close> is a 64-bit sum, and \<open>F(94)\<close> is the first Fibonacci number above
  \<open>2\<^sup>6\<^sup>4 - 1\<close>.
\<close>

theorem fib_value_95_counterexample:
  "map_sum id (\<lambda>vs. unat (vs ! 94)) (fib_values 95 95) = Inr 1293530146158671551 \<and>
   fib 94 = 19740274219868223167"
proof -
  have "fib_values 95 95 = Inr (map (\<lambda>j. word_of_nat (fib j)) [0..<95])"
    by (rule fib_values_run) simp
  moreover have "map (\<lambda>j. word_of_nat (fib j) :: u64) [0..<95] ! 94 = word_of_nat (fib 94)"
    by (simp del: upt_Suc)
  ultimately show ?thesis by (simp add: fib_94 del: upt_Suc)
qed

text \<open>
  Claim C7, amended. The coroutine starts from \<open>(a, b) = (0, 1)\<close>, and resuming it from a
  \<^verbatim>\<open>co_yield\<close> replaces \<open>(a, b)\<close> by \<open>(b, a + b)\<close>, the sum taken in 64 bits. The \<open>N\<close>th value
  of a generator with \<open>N \<le> max_count\<close> is \<open>F(N - 1) mod 2\<^sup>6\<^sup>4\<close>, which is \<open>F(N - 1)\<close> for
  \<open>N \<le> 94\<close>; the first ten values are \<open>0, 1, 1, 2, 3, 5, 8, 13, 21, 34\<close>.
\<close>

theorem fib_values_mod_2_64:
  assumes "k \<le> unat max_count"
  shows "(\<exists>vs. fib_values max_count k = Inr vs \<and> length vs = k \<and>
            (\<forall>j<k. unat (vs ! j) = fib j mod 2 ^ 64 \<and> (j \<le> 93 \<longrightarrow> unat (vs ! j) = fib j)) \<and>
            (10 \<le> k \<longrightarrow> take 10 vs = [0, 1, 1, 2, 3, 5, 8, 13, 21, 34])) \<and>
         (max_count \<noteq> 0 \<longrightarrow>
            fib_next (fibonacci_sequence max_count) =
              Inr (0, (fibonacci_sequence max_count)
                \<lparr>fib_frame := FibYield 0 0 1, fib_value := Some 0\<rparr>)) \<and>
         (fib_frame g = FibYield i a b \<and> i + 1 < fib_max_count g \<longrightarrow>
            fib_next g = Inr (b, g\<lparr>fib_frame := FibYield (i + 1) b (a + b), fib_value := Some b\<rparr>))"
proof (intro conjI impI)
  let ?vs = "map (\<lambda>j. word_of_nat (fib j) :: u64) [0..<k]"
  have "fib_values max_count k = Inr ?vs" using assms by (rule fib_values_run)
  moreover have "length ?vs = k" by simp
  moreover have "\<forall>j<k. unat (?vs ! j) = fib j mod 2 ^ 64 \<and> (j \<le> 93 \<longrightarrow> unat (?vs ! j) = fib j)"
    using fib_small by (auto simp: unat_of_nat take_bit_eq_mod)
  moreover have "10 \<le> k \<longrightarrow> take 10 ?vs = [0, 1, 1, 2, 3, 5, 8, 13, 21, 34]"
  proof
    assume "10 \<le> k"
    then have "take 10 [0..<k] = [0..<10]" by (simp add: take_upt)
    then have "take 10 ?vs = map (\<lambda>j. word_of_nat (fib j)) [0..<10]"
      by (simp only: take_map)
    then show "take 10 ?vs = [0, 1, 1, 2, 3, 5, 8, 13, 21, 34]"
      by (simp only: fib_first_10)
  qed
  ultimately show "\<exists>vs. fib_values max_count k = Inr vs \<and> length vs = k \<and>
            (\<forall>j<k. unat (vs ! j) = fib j mod 2 ^ 64 \<and> (j \<le> 93 \<longrightarrow> unat (vs ! j) = fib j)) \<and>
            (10 \<le> k \<longrightarrow> take 10 vs = [0, 1, 1, 2, 3, 5, 8, 13, 21, 34])"
    by blast
next
  assume "max_count \<noteq> 0"
  then have "0 < max_count" by (simp add: word_greater_zero_iff)
  then show "fib_next (fibonacci_sequence max_count) =
      Inr (0, (fibonacci_sequence max_count)\<lparr>fib_frame := FibYield 0 0 1, fib_value := Some 0\<rparr>)"
    by (simp add: fib_next_def fib_resume_def fibonacci_sequence_def fib_loop_def)
next
  assume "fib_frame g = FibYield i a b \<and> i + 1 < fib_max_count g"
  then show "fib_next g = Inr (b, g\<lparr>fib_frame := FibYield (i + 1) b (a + b), fib_value := Some b\<rparr>)"
    by (simp add: fib_next_def fib_resume_def fib_loop_def)
qed

theorem fib_values_mod_2_64_witness:
  "95 \<le> unat (95::u64) \<and>
   (\<exists>vs. fib_values 95 95 = Inr vs \<and> length vs = 95 \<and>
      unat (vs ! 94) = fib 94 mod 2 ^ 64 \<and> unat (vs ! 93) = fib 93 \<and>
      take 10 vs = [0, 1, 1, 2, 3, 5, 8, 13, 21, 34]) \<and>
   fib_next (fibonacci_sequence 95) =
     Inr (0, \<lparr>fib_max_count = 95, fib_frame = FibYield 0 0 1, fib_value = Some 0\<rparr>) \<and>
   fib_next \<lparr>fib_max_count = 95, fib_frame = FibYield 3 2 3, fib_value = Some 2\<rparr> =
     Inr (3, \<lparr>fib_max_count = 95, fib_frame = FibYield 4 3 5, fib_value = Some 3\<rparr>)"
proof -
  have u: "95 \<le> unat (95::u64)" by simp
  let ?g = "\<lparr>fib_max_count = 95, fib_frame = FibYield 3 2 3, fib_value = Some 2\<rparr>"
  note t = fib_values_mod_2_64 [OF u, of ?g 3 2 3]
  from t obtain vs where vs: "fib_values 95 95 = Inr vs" "length vs = 95"
    and all: "\<forall>j<95. unat (vs ! j) = fib j mod 2 ^ 64 \<and> (j \<le> 93 \<longrightarrow> unat (vs ! j) = fib j)"
    and ten: "(10::nat) \<le> 95 \<longrightarrow> take 10 vs = [0, 1, 1, 2, 3, 5, 8, 13, 21, 34]"
    by blast
  from all have "(94::nat) < 95 \<longrightarrow> unat (vs ! 94) = fib 94 mod 2 ^ 64"
    and "(93::nat) < 95 \<longrightarrow> (93::nat) \<le> 93 \<longrightarrow> unat (vs ! 93) = fib 93"
    by blast+
  then have "unat (vs ! 94) = fib 94 mod 2 ^ 64" "unat (vs ! 93) = fib 93" by simp_all
  moreover from ten have "take 10 vs = [0, 1, 1, 2, 3, 5, 8, 13, 21, 34]" by simp
  moreover from t have "fib_next (fibonacci_sequence 95) =
     Inr (0, \<lparr>fib_max_count = 95, fib_frame = FibYield 0 0 1, fib_value = Some 0\<rparr>)"
    by (simp add: fibonacci_sequence_def)
  moreover from t have "fib_next ?g =
     Inr (3, \<lparr>fib_max_count = 95, fib_frame = FibYield 4 3 5, fib_value = Some 3\<rparr>)"
    by simp
  ultimately show ?thesis using u vs by blast
qed


section \<open>Proofs: primes and trial division in 64 bits\<close>


subsection \<open>Prime numbers\<close>

lemma prime_nat_dvd: "prime_nat p \<Longrightarrow> d dvd p \<Longrightarrow> d = 1 \<or> d = p"
proof (rule ccontr)
  assume p: "prime_nat p" and d: "d dvd p" and n: "\<not> (d = 1 \<or> d = p)"
  have "0 < p" using p by (simp add: prime_nat_def)
  then have "d \<le> p" "d \<noteq> 0" using d by (auto intro: dvd_imp_le)
  then have "d \<in> {2..<p}" using n by auto
  then show False using p d by (auto simp: prime_nat_def)
qed

lemma prime_nat_ge_2: "prime_nat p \<Longrightarrow> 2 \<le> p"
  by (simp add: prime_nat_def)

lemma prime_nat_odd: "prime_nat p \<Longrightarrow> 2 < p \<Longrightarrow> odd p"
  using prime_nat_dvd [of p 2] by auto

lemma prime_factor_exists:
  assumes "1 < n"
  shows "\<exists>q. prime_nat q \<and> q dvd n \<and> (prime_nat n \<or> q * q \<le> n)"
proof -
  define q where "q = (LEAST d. 1 < d \<and> d dvd n)"
  have ex: "1 < n \<and> n dvd n" using assms by simp
  have q: "1 < q" "q dvd n" unfolding q_def using LeastI [of "\<lambda>d. 1 < d \<and> d dvd n" n, OF ex] by auto
  have least: "q \<le> d" if "1 < d" "d dvd n" for d
    unfolding q_def using that by (intro Least_le) simp
  have pq: "prime_nat q"
    unfolding prime_nat_def
  proof (intro conjI ballI notI)
    show "1 < q" by (rule q)
    fix d assume "d \<in> {2..<q}" "d dvd q"
    then have "1 < d" "d dvd n" "d < q" using q(2) by (auto intro: dvd_trans)
    then show False using least [of d] by simp
  qed
  have "prime_nat n \<or> q * q \<le> n"
  proof (cases "q = n")
    case True
    then show ?thesis using pq by simp
  next
    case False
    obtain m where m: "n = q * m" using q(2) by (auto simp: dvd_def)
    have "m \<noteq> 0" using m assms by (cases m) auto
    moreover have "m \<noteq> 1" using m False by auto
    ultimately have "m \<noteq> 0" "m \<noteq> 1" by auto
    then have "1 < m" by simp
    moreover have "m dvd n" using m by simp
    ultimately have "q \<le> m" by (rule least)
    then have "q * q \<le> q * m" by simp
    then show ?thesis using m by simp
  qed
  then show ?thesis using pq q(2) by blast
qed

lemma prime_nat_by_small_factors:
  assumes "1 < n" "\<And>q. prime_nat q \<Longrightarrow> q dvd n \<Longrightarrow> n < q * q"
  shows "prime_nat n"
  using prime_factor_exists [OF assms(1)] assms(2) by (meson not_less)

subsection \<open>64-bit arithmetic\<close>

lemma unat_u64_less: "unat (w :: u64) < 18446744073709551616"
  using unsigned_less [of w] by simp

lemma unat_plus_2:
  fixes i :: u64
  assumes "unat i + 2 < 18446744073709551616"
  shows "unat (i + 2) = unat i + 2"
  using assms by (simp add: unat_word_ariths)

lemma unat_square_small:
  fixes i :: u64
  assumes "unat i < 4294967296"
  shows "unat (i * i) = unat i * unat i"
proof -
  have "unat i * unat i < 4294967296 * 4294967296"
    using assms by (intro mult_strict_mono) auto
  then show ?thesis by (simp add: unat_word_ariths)
qed

lemma word_mod_eq_0_iff_dvd:
  fixes n i :: u64
  shows "n mod i = 0 \<longleftrightarrow> unat i dvd unat n \<or> (i = 0 \<and> n = 0)"
proof (cases "i = 0")
  case True
  then show ?thesis by (auto simp: unat_eq_0)
next
  case False
  have "n mod i = 0 \<longleftrightarrow> unat (n mod i) = 0" by (simp add: unat_eq_0)
  also have "\<dots> \<longleftrightarrow> unat n mod unat i = 0" by (simp add: unat_mod)
  also have "\<dots> \<longleftrightarrow> unat i dvd unat n" by (simp add: dvd_eq_mod_eq_0)
  finally show ?thesis using False by simp
qed

lemma root_minus_7_square: "(word_of_nat root_minus_7 :: u64) * word_of_nat root_minus_7 = - 7"
  by (simp add: root_minus_7_def)

lemma root_minus_7_check_fails:
  fixes n i :: u64
  assumes "unat n \<le> 18446744073709551608" "unat i = root_minus_7"
  shows "\<not> i * i \<le> n"
proof -
  have "word_of_nat (unat i) = i" by simp
  then have "i = word_of_nat root_minus_7" unfolding assms(2) by simp
  then have "i * i = - 7" by (simp add: root_minus_7_square)
  then have "unat (i * i) = 18446744073709551609" by simp
  then show ?thesis using assms(1) by (simp add: word_le_nat_alt)
qed

lemma square_less_2_64:
  fixes d :: nat
  assumes "d * d < 18446744073709551616"
  shows "d < 4294967296"
proof (rule ccontr)
  assume "\<not> d < 4294967296"
  then have "4294967296 * 4294967296 \<le> d * d" by (intro mult_le_mono) auto
  then show False using assms by simp
qed

lemma odd_next_le: "odd (a::nat) \<Longrightarrow> odd b \<Longrightarrow> a < b \<Longrightarrow> a + 2 \<le> b"
  by (auto elim!: oddE)

subsection \<open>Trial division\<close>

lemma trial_division_composite:
  assumes "odd d" "d * d \<le> unat n" "d dvd unat n"
    and "odd (unat i)" "3 \<le> unat i" "unat i \<le> d"
  shows "trial_division n i = Some False"
  using assms(4-6)
proof (induction "d - unat i" arbitrary: i rule: less_induct)
  case less
  have "d * d < 18446744073709551616" using assms(2) unat_u64_less [of n] by simp
  then have d32: "d < 4294967296" by (rule square_less_2_64)
  then have i32: "unat i < 4294967296" using less.prems by simp
  have "unat i * unat i \<le> d * d" using less.prems(3) by (intro mult_le_mono)
  then have check: "i * i \<le> n"
    using assms(2) by (simp add: word_le_nat_alt unat_square_small [OF i32])
  show ?case
  proof (cases "n mod i = 0")
    case True
    then show ?thesis using check by (subst trial_division.simps) simp
  next
    case False
    then have "\<not> unat i dvd unat n" by (simp add: word_mod_eq_0_iff_dvd)
    then have "unat i \<noteq> d" using assms(3) by auto
    then have "unat i < d" using less.prems(3) by simp
    then have le: "unat i + 2 \<le> d" using less.prems(1) assms(1) by (intro odd_next_le)
    then have u: "unat (i + 2) = unat i + 2" using d32 by (intro unat_plus_2) simp
    have "trial_division n (i + 2) = Some False"
      by (rule less.hyps) (use u le less.prems in auto)
    then show ?thesis using check False by (subst trial_division.simps) simp
  qed
qed

lemma trial_division_prime:
  assumes "prime_nat (unat n)" "odd R" "R < 18446744073709551616"
    and fails: "\<And>i. unat i = R \<Longrightarrow> \<not> i * i \<le> n"
    and below: "\<And>i. 3 \<le> unat i \<Longrightarrow> unat i < R \<Longrightarrow> i * i \<le> n \<Longrightarrow> unat i < unat n"
    and "odd (unat i)" "3 \<le> unat i" "unat i \<le> R"
  shows "trial_division n i = Some True"
  using assms(6-8)
proof (induction "R - unat i" arbitrary: i rule: less_induct)
  case less
  show ?case
  proof (cases "i * i \<le> n")
    case False
    then show ?thesis by (subst trial_division.simps) simp
  next
    case True
    then have "unat i \<noteq> R" using fails by blast
    then have lt: "unat i < R" using less.prems(3) by simp
    then have "unat i < unat n" using below less.prems(2) True by blast
    then have "\<not> unat i dvd unat n"
      using prime_nat_dvd [OF assms(1), of "unat i"] less.prems(2) by auto
    then have nd: "n mod i \<noteq> 0" using less.prems(2) by (auto simp: word_mod_eq_0_iff_dvd)
    have le: "unat i + 2 \<le> R" using less.prems(1) assms(2) lt by (intro odd_next_le)
    then have u: "unat (i + 2) = unat i + 2" using assms(3) by (intro unat_plus_2) simp
    have "trial_division n (i + 2) = Some True"
      by (rule less.hyps) (use u le less.prems in auto)
    then show ?thesis using True nd by (subst trial_division.simps) simp
  qed
qed

lemma small_factor_at_top:
  assumes "18446744073709551608 < p" "p < 18446744073709551616"
  shows "\<exists>d::nat. 1 < d \<and> d < 14 \<and> d dvd p"
proof -
  define k where "k = p - 18446744073709551609"
  have p: "p = 18446744073709551609 + k" and "k < 7" using assms by (simp_all add: k_def)
  then consider "k = 0" | "k = 1" | "k = 2" | "k = 3" | "k = 4" | "k = 5" | "k = 6"
    by linarith
  then show ?thesis
  proof cases
    case 1
    then show ?thesis unfolding p by (intro exI [of _ 3]) simp
  next
    case 2
    then show ?thesis unfolding p by (intro exI [of _ 2]) simp
  next
    case 3
    then show ?thesis unfolding p by (intro exI [of _ 11]) simp
  next
    case 4
    then show ?thesis unfolding p by (intro exI [of _ 2]) simp
  next
    case 5
    then show ?thesis unfolding p by (intro exI [of _ 13]) simp
  next
    case 6
    then show ?thesis unfolding p by (intro exI [of _ 2]) simp
  next
    case 7
    then show ?thesis unfolding p by (intro exI [of _ 3]) simp
  qed
qed

lemma no_prime_at_top:
  assumes "prime_nat p" "18446744073709551608 < p" "p < 18446744073709551616"
  shows False
proof -
  obtain d where "1 < d" "d < 14" "d dvd p"
    using small_factor_at_top [OF assms(2,3)] by blast
  then show False using prime_nat_dvd [OF assms(1), of d] assms(2) by auto
qed

lemma trial_division_prime_3:
  assumes "prime_nat (unat n)" "3 \<le> unat n"
  shows "trial_division n 3 = Some True"
proof (cases "unat n < 18446744065119617025")
  case True
  show ?thesis
  proof (rule trial_division_prime [OF assms(1), of 4294967295])
    fix i :: u64
    assume "unat i = 4294967295"
    then have "unat (i * i) = 4294967295 * 4294967295" by (simp add: unat_square_small)
    then show "\<not> i * i \<le> n" using True by (simp add: word_le_nat_alt)
  next
    fix i :: u64
    assume i: "3 \<le> unat i" "unat i < 4294967295" "i * i \<le> n"
    then have "unat i * unat i \<le> unat n" by (simp add: word_le_nat_alt unat_square_small)
    moreover have "3 * unat i \<le> unat i * unat i" using i(1) by (intro mult_le_mono) auto
    ultimately show "unat i < unat n" using i(1) by linarith
  qed simp_all
next
  case False
  have top: "unat n \<le> 18446744073709551608"
    using no_prime_at_top [OF assms(1)] unat_u64_less [of n] by fastforce
  show ?thesis
  proof (rule trial_division_prime [OF assms(1), of root_minus_7])
    fix i :: u64
    assume "unat i = root_minus_7"
    then show "\<not> i * i \<le> n" using top by (intro root_minus_7_check_fails)
  next
    fix i :: u64
    assume "unat i < root_minus_7"
    then show "unat i < unat n" using False by (simp add: root_minus_7_def)
  qed (simp_all add: root_minus_7_def)
qed

lemma trial_division_correct:
  assumes "odd (unat n)" "3 \<le> unat n"
  shows "trial_division n 3 = Some (prime_nat (unat n))"
proof (cases "prime_nat (unat n)")
  case True
  then show ?thesis using trial_division_prime_3 assms(2) by simp
next
  case False
  obtain q where q: "prime_nat q" "q dvd unat n" "q * q \<le> unat n"
    using prime_factor_exists [of "unat n"] assms(2) False by auto
  have "q \<noteq> 2" using q(2) assms(1) by auto
  then have "2 < q" using prime_nat_ge_2 [OF q(1)] by simp
  then have "odd q" "3 \<le> q" using prime_nat_odd [OF q(1)] by auto
  then have "trial_division n 3 = Some False"
    using q by (intro trial_division_composite [of q]) auto
  then show ?thesis using False by simp
qed

subsection \<open>The primes up to a bound\<close>

lemma prime_nat_2: "prime_nat 2"
  by (simp add: prime_nat_def)

lemma primes_upto_2: "primes_upto 2 = [2]"
  by (simp add: primes_upto_def prime_nat_2 upt_rec)

lemma primes_upto_Suc:
  assumes "1 \<le> n"
  shows "primes_upto (Suc n) = primes_upto n @ (if prime_nat (Suc n) then [Suc n] else [])"
  using assms by (simp add: primes_upto_def)

lemma set_primes_upto: "set (primes_upto n) = {p. prime_nat p \<and> p \<le> n}"
  by (auto simp: primes_upto_def prime_nat_def)

lemma sorted_primes_upto: "sorted_wrt (<) (primes_upto n)"
  unfolding primes_upto_def by (intro sorted_wrt_filter) (simp add: sorted_wrt_upt del: upt_Suc)

lemma primes_upto_nonempty: "2 \<le> n \<Longrightarrow> primes_upto n \<noteq> []"
  using set_primes_upto [of n] prime_nat_2 by (metis (mono_tags, lifting) empty_iff list.set(1) mem_Collect_eq)

lemma last_primes_upto:
  assumes "2 \<le> n"
  shows "prime_nat (last (primes_upto n))" "last (primes_upto n) \<le> n"
    and "\<And>q. prime_nat q \<Longrightarrow> q \<le> n \<Longrightarrow> q \<le> last (primes_upto n)"
proof -
  let ?ps = "primes_upto n"
  have ne: "?ps \<noteq> []" using assms by (rule primes_upto_nonempty)
  then have "last ?ps \<in> set ?ps" by simp
  then show "prime_nat (last ?ps)" "last ?ps \<le> n" by (simp_all add: set_primes_upto)
  fix q assume "prime_nat q" "q \<le> n"
  then have "q \<in> set ?ps" by (simp add: set_primes_upto)
  then obtain j where j: "j < length ?ps" "?ps ! j = q" by (auto simp: in_set_conv_nth)
  have "sorted ?ps" using sorted_primes_upto [of n] by (simp add: strict_sorted_iff)
  then have "?ps ! j \<le> ?ps ! (length ?ps - 1)"
    using j(1) by (intro sorted_nth_mono) auto
  then show "q \<le> last ?ps" using j(2) ne by (simp add: last_conv_nth)
qed

lemma primes_upto_singleton:
  assumes "length (primes_upto n) = 1" "prime_nat q" "q \<le> n"
  shows "q = 2"
proof -
  have n: "2 \<le> n" using assms(2,3) prime_nat_ge_2 [of q] by simp
  obtain x where x: "primes_upto n = [x]" using assms(1) by (cases "primes_upto n") auto
  have "2 \<in> set (primes_upto n)" "q \<in> set (primes_upto n)"
    using n assms(2,3) prime_nat_2 by (simp_all add: set_primes_upto)
  then show ?thesis unfolding x by simp
qed

lemma last_primes_upto_gt_2:
  assumes "2 \<le> n" "length (primes_upto n) \<noteq> 1"
  shows "2 < last (primes_upto n)"
proof -
  let ?ps = "primes_upto n"
  have ne: "?ps \<noteq> []" using assms(1) by (rule primes_upto_nonempty)
  then have "length ?ps \<noteq> 0" by simp
  then have len: "2 \<le> length ?ps" using assms(2) by linarith
  have "?ps ! 0 < ?ps ! (length ?ps - 1)"
    by (rule sorted_wrt_nth_less [OF sorted_primes_upto]) (use len in auto)
  moreover have "?ps ! 0 \<in> set ?ps" using ne by simp
  then have "2 \<le> ?ps ! 0" using prime_nat_ge_2 by (simp add: set_primes_upto)
  ultimately show ?thesis using ne by (simp add: last_conv_nth)
qed


section \<open>Proofs: the concurrent prime counter\<close>

subsection \<open>One worker\<close>


lemma primes_between_empty: "b \<le> a \<Longrightarrow> primes_between a b = 0"
  by (simp add: primes_between_def)

lemma primes_between_split:
  assumes "a \<le> b" "b \<le> c"
  shows "primes_between a b + primes_between b c = primes_between a c"
proof -
  obtain k where c: "c = b + k" using assms(2) by (auto simp: le_iff_add)
  have "[a..<b + k] = [a..<b] @ [b..<b + k]" using assms(1) by (rule upt_add_eq_append)
  then show ?thesis by (simp add: primes_between_def c)
qed

lemma primes_between_first:
  assumes "a < b"
  shows "primes_between a b =
    (if is_prime (word_of_nat a) = Some True then 1 else 0) + primes_between (Suc a) b"
  using assms by (simp add: primes_between_def upt_conv_Cons)

lemma unat_not_max:
  fixes b :: u64
  assumes "b \<noteq> - 1"
  shows "unat b < 18446744073709551615"
proof -
  have "unat b \<noteq> unat (- 1 :: u64)" using assms by (simp add: word_unat_eq_iff)
  moreover have "unat (- 1 :: u64) = 18446744073709551615"
    by (simp add: unsigned_minus_1_eq_mask mask_eq_exp_minus_1)
  ultimately show ?thesis using unat_u64_less [of b] by simp
qed

lemma unat_plus_1:
  fixes a b :: u64
  assumes "a \<le> b" "b \<noteq> - 1"
  shows "unat (a + 1) = unat a + 1"
proof -
  have "unat a + 1 < 18446744073709551616"
    using assms(1) unat_not_max [OF assms(2)] by (simp add: word_le_nat_alt)
  then show ?thesis by (simp add: unat_word_ariths)
qed

lemma count_chunk_counts:
  assumes "b \<noteq> - 1" "unat a \<le> unat b + 1"
  shows "count_chunk a b local_count =
    Some (local_count + word_of_nat (primes_between (unat a) (unat b + 1)))"
  using assms(2)
proof (induction "unat b + 1 - unat a" arbitrary: a local_count rule: less_induct)
  case less
  show ?case
  proof (cases "a \<le> b")
    case False
    then have "unat b + 1 \<le> unat a" by (simp add: word_le_nat_alt)
    then have "primes_between (unat a) (unat b + 1) = 0" by (rule primes_between_empty)
    then show ?thesis using False by (subst count_chunk.simps) simp
  next
    case True
    obtain p where p: "is_prime a = Some p" using is_prime_total by blast
    have u: "unat (a + 1) = unat a + 1" using True assms(1) by (rule unat_plus_1)
    have lt: "unat a < unat b + 1" using True by (simp add: word_le_nat_alt)
    have "count_chunk (a + 1) b (if p then local_count + 1 else local_count) =
      Some ((if p then local_count + 1 else local_count) +
        word_of_nat (primes_between (unat (a + 1)) (unat b + 1)))"
      by (rule less.hyps) (use u lt in auto)
    moreover have "primes_between (unat a) (unat b + 1) =
      (if p then 1 else 0) + primes_between (unat (a + 1)) (unat b + 1)"
      using primes_between_first [OF lt] p u by simp
    ultimately show ?thesis
      using True p by (subst count_chunk.simps) simp
  qed
qed

subsection \<open>The chunks, away from the wrap-around\<close>

text \<open>
  In the lemmas of this subsection the range is \<open>start \<le> stop < 2\<^sup>6\<^sup>4 - 1\<close>, there is at least
  one thread, and \<open>start\<close> is not 0 or there are no more threads than numbers in the
  range. Then the chunks are contiguous, each number of the range lies in exactly one of
  them, and the count does not depend on the number of threads.
\<close>

lemma chunk_bound:
  fixes s e t j :: nat
  assumes "s \<le> e" "j < t"
  shows "s + j * ((e - s + 1) div t) \<le> e"
proof (cases "(e - s + 1) div t = 0")
  case True
  then show ?thesis using assms(1) by simp
next
  case False
  have "Suc j * ((e - s + 1) div t) \<le> t * ((e - s + 1) div t)"
    using assms(2) by (intro mult_le_mono1) simp
  also have "\<dots> \<le> e - s + 1" by (rule times_div_less_eq_dividend)
  finally have "j * ((e - s + 1) div t) + (e - s + 1) div t \<le> e - s + 1" by simp
  then have "j * ((e - s + 1) div t) \<le> e - s" using False by linarith
  then show ?thesis using assms(1) by linarith
qed

lemma unat_ucast_u32: "unat (ucast (w :: u32) :: u64) = unat w"
proof -
  have "unat w < 2 ^ 32" using unsigned_less [of w] by simp
  then have "unat w < 2 ^ 64" by (rule less_trans) simp
  then show ?thesis by (simp add: unsigned_ucast_eq take_bit_nat_eq_self)
qed

lemma unat_of_nat_u32:
  fixes tc :: u32
  assumes "i < unat tc"
  shows "unat (word_of_nat i :: u32) = i"
proof -
  have "unat tc < 2 ^ 32" using unsigned_less [of tc] by simp
  then have "i < 2 ^ 32" using assms by simp
  then show ?thesis by (simp add: unat_of_nat take_bit_nat_eq_self)
qed

lemma chunk_size_unat:
  assumes "start \<le> stop" "stop \<noteq> - 1"
  shows "unat (chunk_size start stop tc) = (unat stop - unat start + 1) div unat tc"
proof -
  have d: "unat (stop - start) = unat stop - unat start" using assms(1) by (rule unat_sub)
  have "unat (stop - start) + 1 < 18446744073709551616"
    using d unat_not_max [OF assms(2)] by simp
  then have "unat (stop - start + 1) = unat stop - unat start + 1"
    using d by (simp add: unat_word_ariths)
  then show ?thesis by (simp add: chunk_size_def unat_div unat_ucast_u32)
qed

lemma chunk_start_unat:
  assumes "start \<le> stop" "stop \<noteq> - 1" "i < unat tc"
  shows "unat (chunk_start start stop tc (word_of_nat i)) =
    unat start + i * ((unat stop - unat start + 1) div unat tc)"
proof -
  let ?cs = "(unat stop - unat start + 1) div unat tc"
  have se: "unat start \<le> unat stop" using assms(1) by (simp add: word_le_nat_alt)
  have b: "unat start + i * ?cs \<le> unat stop" using se assms(3) by (rule chunk_bound)
  have lim: "unat stop < 18446744073709551616" by (rule unat_u64_less)
  have ui: "unat (ucast (word_of_nat i :: u32) :: u64) = i"
    using assms(3) by (simp add: unat_ucast_u32 unat_of_nat_u32)
  have "unat (ucast (word_of_nat i :: u32) :: u64) * unat (chunk_size start stop tc) = i * ?cs"
    using ui chunk_size_unat [OF assms(1,2)] by simp
  moreover have "i * ?cs < 2 ^ LENGTH(64)" using b lim by simp
  ultimately have m: "unat (ucast (word_of_nat i :: u32) * chunk_size start stop tc) = i * ?cs"
    using unat_mult_lem [of "ucast (word_of_nat i :: u32) :: u64" "chunk_size start stop tc"]
    by simp
  have "unat start + unat (ucast (word_of_nat i :: u32) * chunk_size start stop tc) < 2 ^ LENGTH(64)"
    using m b lim by simp
  then have "unat (start + ucast (word_of_nat i :: u32) * chunk_size start stop tc) =
    unat start + i * ?cs"
    using unat_add_lem [of start "ucast (word_of_nat i :: u32) * chunk_size start stop tc"] m
    by simp
  then show ?thesis by (simp add: chunk_start_def)
qed

lemma last_index_iff:
  fixes tc :: u32
  assumes "i < unat tc"
  shows "word_of_nat i = tc - 1 \<longleftrightarrow> i = unat tc - 1"
proof -
  have "tc \<noteq> 0" using assms by (auto simp: unat_eq_0)
  then have "unat (tc - 1) = unat tc - 1" by (rule unat_minus_one)
  then show ?thesis
    using unat_of_nat_u32 [OF assms] by (metis word_unat_eq_iff)
qed

lemma chunk_end_unat:
  assumes "start \<le> stop" "stop \<noteq> - 1" "i < unat tc"
    and "start \<noteq> 0 \<or> unat tc \<le> unat stop - unat start + 1"
  shows "unat (chunk_end start stop tc (word_of_nat i)) + 1 =
    (if i = unat tc - 1 then unat stop + 1
     else unat start + Suc i * ((unat stop - unat start + 1) div unat tc))"
proof (cases "i = unat tc - 1")
  case True
  then show ?thesis using last_index_iff [OF assms(3)] by (simp add: chunk_end_def)
next
  case False
  let ?cs = "(unat stop - unat start + 1) div unat tc"
  let ?a = "chunk_start start stop tc (word_of_nat i)"
  let ?c = "chunk_size start stop tc"
  have se: "unat start \<le> unat stop" using assms(1) by (simp add: word_le_nat_alt)
  have "Suc i < unat tc" using False assms(3) by simp
  then have b: "unat start + Suc i * ?cs \<le> unat stop" using se by (intro chunk_bound)
  have lim: "unat stop < 18446744073709551616" by (rule unat_u64_less)
  have ua: "unat ?a = unat start + i * ?cs" using assms(1-3) by (rule chunk_start_unat)
  have uc: "unat ?c = ?cs" using assms(1,2) by (rule chunk_size_unat)
  have "unat ?a + unat ?c < 2 ^ LENGTH(64)" using ua uc b lim by simp
  then have sum: "unat (?a + ?c) = unat start + Suc i * ?cs"
    using unat_add_lem [of ?a ?c] ua uc by simp
  have "0 < unat start + Suc i * ?cs"
  proof (cases "start = 0")
    case False
    then show ?thesis by (simp add: unat_gt_0)
  next
    case True
    then have "unat tc \<le> unat stop - unat start + 1" using assms(4) by simp
    moreover have "0 < unat tc" using assms(3) by simp
    ultimately have "0 < ?cs" by (simp add: div_greater_zero_iff)
    then show ?thesis by simp
  qed
  then have "?a + ?c \<noteq> 0" using sum by (auto simp: unat_eq_0)
  then have "unat (?a + ?c - 1) = unat (?a + ?c) - 1" by (rule unat_minus_one)
  then have "unat (?a + ?c - 1) + 1 = unat start + Suc i * ?cs"
    using sum \<open>0 < unat start + Suc i * ?cs\<close> by simp
  then show ?thesis using False last_index_iff [OF assms(3)] by (simp add: chunk_end_def)
qed

lemma worker_counts:
  assumes "start \<le> stop" "stop \<noteq> - 1" "i < unat tc"
    and "start \<noteq> 0 \<or> unat tc \<le> unat stop - unat start + 1"
  shows "worker (chunk_start start stop tc (word_of_nat i), chunk_end start stop tc (word_of_nat i)) =
    Some (word_of_nat (primes_between
      (unat start + i * ((unat stop - unat start + 1) div unat tc))
      (if i = unat tc - 1 then unat stop + 1
       else unat start + Suc i * ((unat stop - unat start + 1) div unat tc))))"
proof -
  let ?cs = "(unat stop - unat start + 1) div unat tc"
  let ?a = "chunk_start start stop tc (word_of_nat i)"
  let ?b = "chunk_end start stop tc (word_of_nat i)"
  let ?hi = "if i = unat tc - 1 then unat stop + 1 else unat start + Suc i * ?cs"
  have se: "unat start \<le> unat stop" using assms(1) by (simp add: word_le_nat_alt)
  have ua: "unat ?a = unat start + i * ?cs" using assms(1-3) by (rule chunk_start_unat)
  have ub: "unat ?b + 1 = ?hi" using assms by (rule chunk_end_unat)
  have lo: "unat start + i * ?cs \<le> unat stop" using se assms(3) by (rule chunk_bound)
  have hi: "?hi \<le> unat stop + 1"
  proof (cases "i = unat tc - 1")
    case True
    then show ?thesis by simp
  next
    case False
    then have "Suc i < unat tc" using assms(3) by simp
    then have "unat start + Suc i * ?cs \<le> unat stop" using se by (intro chunk_bound)
    then show ?thesis using False by simp
  qed
  have "unat ?b < 18446744073709551615"
    using ub hi unat_not_max [OF assms(2)] by linarith
  then have nb: "?b \<noteq> - 1"
    by (auto simp: unsigned_minus_1_eq_mask mask_eq_exp_minus_1)
  have "unat start + i * ?cs \<le> ?hi"
  proof (cases "i = unat tc - 1")
    case True
    have "unat start + i * ?cs \<le> unat stop + 1" using lo by linarith
    then show ?thesis unfolding if_P [OF True] .
  next
    case False
    have "unat start + i * ?cs \<le> unat start + Suc i * ?cs" by simp
    then show ?thesis unfolding if_not_P [OF False] .
  qed
  then have "unat ?a \<le> unat ?b + 1" unfolding ua ub .
  with nb have "count_chunk ?a ?b 0 = Some (0 + word_of_nat (primes_between (unat ?a) (unat ?b + 1)))"
    by (rule count_chunk_counts)
  then show ?thesis unfolding ua ub by (simp add: worker_def)
qed

lemma those_map_Some: "those (map (\<lambda>x. Some (h x)) xs) = Some (map h xs)"
  by (induction xs) auto

lemma fold_add_of_nat:
  "fold (\<lambda>local_count count. count + local_count) (map word_of_nat ns) (acc :: u64) =
     acc + word_of_nat (sum_list ns)"
  by (induction ns arbitrary: acc) (simp_all add: add.assoc)

lemma sum_primes_between:
  "sum_list (map (\<lambda>i. primes_between (s + i * c) (s + Suc i * c)) [0..<j]) =
     primes_between s (s + j * c)"
proof (induction j)
  case 0
  show ?case by (simp add: primes_between_empty)
next
  case (Suc j)
  have "primes_between s (s + j * c) + primes_between (s + j * c) (s + Suc j * c) =
    primes_between s (s + Suc j * c)"
    by (rule primes_between_split) simp_all
  then show ?case using Suc by simp
qed

lemma count_primes_counts:
  assumes "start \<le> stop" "stop \<noteq> - 1" "tc \<noteq> 0"
    and "start \<noteq> 0 \<or> unat tc \<le> unat stop - unat start + 1"
  shows "count_primes start stop tc =
    Some (Inr (word_of_nat (primes_between (unat start) (unat stop + 1))))"
proof -
  let ?cs = "(unat stop - unat start + 1) div unat tc"
  let ?g = "\<lambda>i. primes_between (unat start + i * ?cs)
      (if i = unat tc - 1 then unat stop + 1 else unat start + Suc i * ?cs)"
  obtain t where t: "unat tc = Suc t" using assms(3) by (cases "unat tc") (auto simp: unat_eq_0)
  have se: "unat start \<le> unat stop" using assms(1) by (simp add: word_le_nat_alt)
  have "map worker (chunks start stop tc) = map (\<lambda>i. Some (word_of_nat (?g i))) [0..<unat tc]"
    unfolding chunks_def map_map
    by (rule map_cong [OF refl]) (use worker_counts [OF assms(1,2) _ assms(4)] in simp)
  then have th: "those (map worker (chunks start stop tc)) =
    Some (map word_of_nat (map ?g [0..<unat tc]))"
    by (simp add: those_map_Some o_def)
  have "sum_list (map ?g [0..<t]) =
    sum_list (map (\<lambda>i. primes_between (unat start + i * ?cs) (unat start + Suc i * ?cs)) [0..<t])"
    by (rule arg_cong [where f = sum_list], rule map_cong [OF refl]) (simp add: t)
  also have "\<dots> = primes_between (unat start) (unat start + t * ?cs)"
    by (rule sum_primes_between)
  finally have front: "sum_list (map ?g [0..<t]) = primes_between (unat start) (unat start + t * ?cs)" .
  have "unat start + t * ?cs \<le> unat stop" by (rule chunk_bound [OF se]) (simp add: t)
  then have "primes_between (unat start) (unat start + t * ?cs) +
      primes_between (unat start + t * ?cs) (unat stop + 1) =
    primes_between (unat start) (unat stop + 1)"
    by (intro primes_between_split) simp_all
  moreover have "?g t = primes_between (unat start + t * ?cs) (unat stop + 1)" by (simp add: t)
  ultimately have "sum_list (map ?g [0..<unat tc]) = primes_between (unat start) (unat stop + 1)"
    using front by (simp add: t)
  then have "fold (\<lambda>local_count count. count + local_count)
      (map word_of_nat (map ?g [0..<unat tc])) (0 :: u64) =
    0 + word_of_nat (primes_between (unat start) (unat stop + 1))"
    by (simp only: fold_add_of_nat)
  then show ?thesis using th assms(3) by (simp add: count_primes_def)
qed

lemma count_primes_independent:
  assumes "start \<le> stop" "stop \<noteq> - 1" "t1 \<noteq> 0" "t2 \<noteq> 0"
    and "start \<noteq> 0 \<or>
      (unat t1 \<le> unat stop - unat start + 1 \<and> unat t2 \<le> unat stop - unat start + 1)"
  shows "count_primes start stop t1 = count_primes start stop t2"
proof -
  have "count_primes start stop t1 =
    Some (Inr (word_of_nat (primes_between (unat start) (unat stop + 1))))"
    using assms by (intro count_primes_counts) auto
  moreover have "count_primes start stop t2 =
    Some (Inr (word_of_nat (primes_between (unat start) (unat stop + 1))))"
    using assms by (intro count_primes_counts) auto
  ultimately show ?thesis by simp
qed

lemma chunks_nth:
  assumes "i < unat tc"
  shows "chunks start stop tc ! i =
    (chunk_start start stop tc (word_of_nat i), chunk_end start stop tc (word_of_nat i))"
  using assms by (simp add: chunks_def)

lemma chunks_contiguous:
  assumes "start \<le> stop" "stop \<noteq> - 1" "tc \<noteq> 0"
    and "start \<noteq> 0 \<or> unat tc \<le> unat stop - unat start + 1"
  shows "length (chunks start stop tc) = unat tc"
    and "fst (chunks start stop tc ! 0) = start"
    and "snd (chunks start stop tc ! (unat tc - 1)) = stop"
    and "Suc i < unat tc \<Longrightarrow>
      snd (chunks start stop tc ! i) + 1 = fst (chunks start stop tc ! Suc i) \<and>
      unat (fst (chunks start stop tc ! Suc i)) =
        unat (fst (chunks start stop tc ! i)) + unat (chunk_size start stop tc)"
proof -
  have pos: "0 < unat tc" using assms(3) by (simp add: unat_gt_0)
  show "length (chunks start stop tc) = unat tc" by (simp add: chunks_def)
  show "fst (chunks start stop tc ! 0) = start"
    using pos by (simp add: chunks_nth chunk_start_def)
  have "unat tc - 1 < unat tc" using pos by simp
  then show "snd (chunks start stop tc ! (unat tc - 1)) = stop"
    using last_index_iff [of "unat tc - 1" tc] by (simp add: chunks_nth chunk_end_def)
  assume i: "Suc i < unat tc"
  let ?cs = "(unat stop - unat start + 1) div unat tc"
  let ?b = "chunk_end start stop tc (word_of_nat i)"
  let ?a' = "chunk_start start stop tc (word_of_nat (Suc i))"
  have i': "i < unat tc" using i by simp
  have "i \<noteq> unat tc - 1" using i by simp
  then have ub: "unat ?b + 1 = unat start + Suc i * ?cs"
    using chunk_end_unat [OF assms(1,2) i' assms(4)] by (simp only: if_False)
  have ua': "unat ?a' = unat start + Suc i * ?cs"
    using assms(1,2) i by (rule chunk_start_unat)
  have ua: "unat (chunk_start start stop tc (word_of_nat i)) = unat start + i * ?cs"
    using assms(1,2) i' by (rule chunk_start_unat)
  have "unat ?b + unat (1 :: u64) < 2 ^ LENGTH(64)"
    using ub ua' unat_u64_less [of ?a'] by simp
  then have "unat (?b + 1) = unat ?b + 1" using unat_add_lem [of ?b 1] by simp
  then have "unat (?b + 1) = unat ?a'" using ub ua' by simp
  then have "?b + 1 = ?a'" by (simp add: word_unat_eq_iff)
  moreover have "unat ?a' = unat (chunk_start start stop tc (word_of_nat i)) +
      unat (chunk_size start stop tc)"
    using ua ua' chunk_size_unat [OF assms(1,2), of tc] by simp
  ultimately show "snd (chunks start stop tc ! i) + 1 = fst (chunks start stop tc ! Suc i) \<and>
      unat (fst (chunks start stop tc ! Suc i)) =
        unat (fst (chunks start stop tc ! i)) + unat (chunk_size start stop tc)"
    using i i' by (simp add: chunks_nth del: of_nat_Suc)
qed

lemma unique_interval:
  fixes B :: "nat \<Rightarrow> nat"
  assumes "\<And>j. j < t \<Longrightarrow> B j \<le> B (Suc j)" "B 0 \<le> n" "n < B t"
  shows "\<exists>!i. i < t \<and> B i \<le> n \<and> n < B (Suc i)"
proof -
  have mono: "B j \<le> B k" if "j \<le> k" "k \<le> t" for j k
    using that
  proof (induction k)
    case 0
    then show ?case by simp
  next
    case (Suc k)
    then show ?case using assms(1) [of k] by (cases "j = Suc k") auto
  qed
  have ex: "\<exists>i. i < t \<and> B i \<le> n \<and> n < B (Suc i)"
    using assms
  proof (induction t)
    case 0
    then show ?case by simp
  next
    case (Suc t)
    show ?case
    proof (cases "n < B t")
      case True
      then obtain i where "i < t" "B i \<le> n" "n < B (Suc i)"
        using Suc.IH Suc.prems by auto
      then show ?thesis by (intro exI [of _ i]) simp
    next
      case False
      then show ?thesis using Suc.prems(3) by (intro exI [of _ t]) simp
    qed
  qed
  have "i = i'" if "i < t" "B i \<le> n" "n < B (Suc i)" "i' < t" "B i' \<le> n" "n < B (Suc i')" for i i'
  proof (rule ccontr)
    assume "i \<noteq> i'"
    then consider "Suc i \<le> i'" | "Suc i' \<le> i" by linarith
    then show False
    proof cases
      case 1
      then have "B (Suc i) \<le> B i'" using that(4) by (intro mono) auto
      then show False using that by simp
    next
      case 2
      then have "B (Suc i') \<le> B i" using that(1) by (intro mono) auto
      then show False using that by simp
    qed
  qed
  then show ?thesis using ex by blast
qed

lemma chunks_cover_once:
  assumes "start \<le> stop" "stop \<noteq> - 1" "tc \<noteq> 0"
    and "start \<noteq> 0 \<or> unat tc \<le> unat stop - unat start + 1"
  shows "(\<exists>i < unat tc. fst (chunks start stop tc ! i) \<le> n \<and> n \<le> snd (chunks start stop tc ! i))
           \<longleftrightarrow> start \<le> n \<and> n \<le> stop"
    and "start \<le> n \<Longrightarrow> n \<le> stop \<Longrightarrow>
      \<exists>!i. i < unat tc \<and> fst (chunks start stop tc ! i) \<le> n \<and> n \<le> snd (chunks start stop tc ! i)"
proof -
  let ?cs = "(unat stop - unat start + 1) div unat tc"
  define B where "B j = (if j = unat tc then unat stop + 1 else unat start + j * ?cs)" for j
  have se: "unat start \<le> unat stop" using assms(1) by (simp add: word_le_nat_alt)
  have pos: "0 < unat tc" using assms(3) by (simp add: unat_gt_0)
  have lo: "unat (fst (chunks start stop tc ! i)) = B i" if "i < unat tc" for i
    using that chunk_start_unat [OF assms(1,2) that] by (simp add: chunks_nth B_def)
  have hi: "unat (snd (chunks start stop tc ! i)) + 1 = B (Suc i)" if "i < unat tc" for i
  proof -
    have "(i = unat tc - 1) = (Suc i = unat tc)" using that by auto
    then show ?thesis
      using that chunk_end_unat [OF assms(1,2) that assms(4)] by (simp add: chunks_nth B_def)
  qed
  have inside: "fst (chunks start stop tc ! i) \<le> n \<and> n \<le> snd (chunks start stop tc ! i) \<longleftrightarrow>
      B i \<le> unat n \<and> unat n < B (Suc i)" if "i < unat tc" for i
    using lo [OF that] hi [OF that] by (auto simp: word_le_nat_alt)
  have step: "B j \<le> B (Suc j)" if "j < unat tc" for j
  proof (cases "Suc j = unat tc")
    case True
    have "unat start + j * ?cs \<le> unat stop" using se that by (rule chunk_bound)
    then show ?thesis using True that by (simp add: B_def)
  next
    case False
    then show ?thesis using that by (simp add: B_def)
  qed
  have B0: "B 0 = unat start" using pos by (simp add: B_def)
  have Bt: "B (unat tc) = unat stop + 1" by (simp add: B_def)
  have mono: "B j \<le> B k" if "j \<le> k" "k \<le> unat tc" for j k
    using that
  proof (induction k)
    case 0
    then show ?case by simp
  next
    case (Suc k)
    then show ?case using step [of k] by (cases "j = Suc k") auto
  qed
  have uniq: "\<exists>!i. i < unat tc \<and> B i \<le> unat n \<and> unat n < B (Suc i)"
    if "start \<le> n" "n \<le> stop"
  proof (rule unique_interval)
    show "B j \<le> B (Suc j)" if "j < unat tc" for j using that by (rule step)
    show "B 0 \<le> unat n" using that(1) B0 by (simp add: word_le_nat_alt)
    show "unat n < B (unat tc)" using that(2) Bt by (simp add: word_le_nat_alt)
  qed
  show "start \<le> n \<Longrightarrow> n \<le> stop \<Longrightarrow>
      \<exists>!i. i < unat tc \<and> fst (chunks start stop tc ! i) \<le> n \<and> n \<le> snd (chunks start stop tc ! i)"
    using uniq inside by (metis (no_types, lifting))
  show "(\<exists>i < unat tc. fst (chunks start stop tc ! i) \<le> n \<and> n \<le> snd (chunks start stop tc ! i))
           \<longleftrightarrow> start \<le> n \<and> n \<le> stop"
  proof
    assume "start \<le> n \<and> n \<le> stop"
    then show "\<exists>i < unat tc. fst (chunks start stop tc ! i) \<le> n \<and> n \<le> snd (chunks start stop tc ! i)"
      using uniq inside by (metis (no_types, lifting))
  next
    assume "\<exists>i < unat tc. fst (chunks start stop tc ! i) \<le> n \<and> n \<le> snd (chunks start stop tc ! i)"
    then obtain i where i: "i < unat tc" "B i \<le> unat n" "unat n < B (Suc i)"
      using inside by blast
    have "B 0 \<le> B i" using i(1) by (intro mono) auto
    moreover have "B (Suc i) \<le> B (unat tc)" using i(1) by (intro mono) auto
    ultimately show "start \<le> n \<and> n \<le> stop"
      using i B0 Bt by (simp add: word_le_nat_alt)
  qed
qed


subsection \<open>The wrap-around at the lower end\<close>

lemma count_chunk_returns_bound:
  assumes "count_chunk n ce local_count = Some y"
  shows "ce \<noteq> - 1"
proof (rule count_chunk.raw_induct [where P = "\<lambda>n ce local_count y. ce \<noteq> - 1", OF _ assms])
  fix f :: "u64 \<Rightarrow> u64 \<Rightarrow> u64 \<Rightarrow> u64 option" and n ce local_count y
  assume IH: "\<And>n ce local_count y. f n ce local_count = Some y \<Longrightarrow> ce \<noteq> - 1"
    and step: "(if n \<le> ce
      then case is_prime n of None \<Rightarrow> None
           | Some p \<Rightarrow> f (n + 1) ce (if p then local_count + 1 else local_count)
      else Some local_count) = Some y"
  show "ce \<noteq> - 1"
  proof (cases "n \<le> ce")
    case True
    then obtain p where "f (n + 1) ce (if p then local_count + 1 else local_count) = Some y"
      using step by (auto split: option.splits)
    then show ?thesis by (rule IH)
  next
    case False
    then show ?thesis by auto
  qed
qed

lemma count_chunk_never_returns:
  "count_chunk n (- 1) local_count = None"
  using count_chunk_returns_bound [of n "- 1" local_count] by (cases "count_chunk n (- 1) local_count") auto

lemma chunks_0_0_2: "chunks 0 0 2 = [(0, - 1), (0, 0)]"
  by (simp add: chunks_def chunk_start_def chunk_end_def chunk_size_def upt_rec)

text \<open>
  Claim C1 fails on the code at the range \<open>[0, 0]\<close>. With one thread the call returns 0.
  With two threads \<^verbatim>\<open>chunk_size\<close> is \<open>1 / 2 = 0\<close>, the first chunk ends at
  \<open>0 + 0 - 1 = 2\<^sup>6\<^sup>4 - 1\<close>, the loop test \<^verbatim>\<open>n <= chunk_end\<close> of its worker is always true,
  and the call never returns.
\<close>

theorem count_primes_thread_count_changes_result:
  "count_primes 0 0 1 = Some (Inr 0) \<and> count_primes 0 0 2 = None"
proof
  show "count_primes 0 0 1 = Some (Inr 0)" by code_simp
  have "worker (0, - 1) = None" by (simp add: worker_def count_chunk_never_returns)
  then show "count_primes 0 0 2 = None"
    by (simp add: count_primes_def chunks_0_0_2)
qed

text \<open>
  Claim C2 fails on the code at \<open>start = end = 0\<close> with two threads: the first chunk is
  the whole 64-bit range \<open>[0, 2\<^sup>6\<^sup>4 - 1]\<close>. It contains the second chunk \<open>[0, 0]\<close>, and
  the union of the two is not \<open>[0, 0]\<close>.
\<close>

theorem chunks_overlap_at_zero:
  "chunks 0 0 2 = [(0, 18446744073709551615), (0, 0)]"
  by (simp add: chunks_def chunk_start_def chunk_end_def chunk_size_def upt_rec)

text \<open>
  Claim C9, as stated, at \<open>start = 5\<close>, \<open>end = 3\<close>: the call reports nothing and
  returns 0.
\<close>

theorem count_primes_invalid_range_counterexample:
  "count_primes 5 3 1 = Some (Inr 0)"
  by code_simp

lemma chunks_single: "chunks start stop 1 = [(start, stop)]"
  by (simp add: chunks_def chunk_start_def chunk_end_def chunk_size_def)

lemma count_chunk_empty: "ce < n \<Longrightarrow> count_chunk n ce local_count = Some local_count"
  by (subst count_chunk.simps) (use leD in auto)

lemma chunks_5_3_2: "chunks 5 3 2 = [(5, 9223372036854775811), (9223372036854775812, 3)]"
  by (simp add: chunks_def chunk_start_def chunk_end_def chunk_size_def upt_rec)

lemma count_primes_5_3_2:
  "count_primes 5 3 2 = Some (Inr (word_of_nat (primes_between 5 9223372036854775812)))"
proof -
  have "count_chunk 5 9223372036854775811 0 =
      Some (0 + word_of_nat (primes_between (unat (5::u64)) (unat (9223372036854775811::u64) + 1)))"
    by (rule count_chunk_counts) simp_all
  then have "worker (5, 9223372036854775811) =
      Some (word_of_nat (primes_between 5 9223372036854775812))"
    by (simp add: worker_def)
  moreover have "worker (9223372036854775812, 3) = Some 0"
    by (simp add: worker_def count_chunk_empty)
  ultimately show ?thesis by (simp add: count_primes_def chunks_5_3_2)
qed

lemma chunks_wrapped_to_top:
  "chunks 9223372036854775809 9223372036854775806 2 =
     [(9223372036854775809, - 1), (0, 9223372036854775806)]"
  by (simp add: chunks_def chunk_start_def chunk_end_def chunk_size_def upt_rec)

lemma count_primes_invalid_range_no_return:
  "count_primes 9223372036854775809 9223372036854775806 2 = None"
proof -
  have "worker (9223372036854775809, - 1) = None"
    by (simp add: worker_def count_chunk_never_returns)
  then show ?thesis by (simp add: count_primes_def chunks_wrapped_to_top)
qed

text \<open>
  Claim C9, amended, for the invalid range. \<^verbatim>\<open>count_primes\<close> does not check \<open>start \<le> end\<close>.
  With \<open>start > end\<close> and any \<open>thread_count \<ge> 1\<close> no failure is reported: the workers run
  on the chunks computed from the wrapped length \<open>end - start + 1\<close>, and the call returns
  their total or, if a worker never finishes, does not return. With one thread the only
  chunk \<open>[start, end]\<close> is empty and the call returns 0; \<^verbatim>\<open>count_primes(5, 3, 2)\<close> returns the
  number of primes from 5 to \<open>2\<^sup>6\<^sup>3 + 3\<close>; the call with \<open>start = 2\<^sup>6\<^sup>3 + 1\<close>,
  \<open>end = 2\<^sup>6\<^sup>3 - 2\<close> and two threads does not return, as shown above.
\<close>

theorem count_primes_invalid_range_unreported:
  assumes "stop < start" "thread_count \<noteq> 0"
  shows "(count_primes start stop thread_count = None \<or>
            (\<exists>c. count_primes start stop thread_count = Some (Inr c))) \<and>
         count_primes start stop 1 = Some (Inr 0) \<and>
         count_primes 5 3 2 = Some (Inr (word_of_nat (primes_between 5 9223372036854775812)))"
proof (intro conjI)
  show "count_primes start stop thread_count = None \<or>
            (\<exists>c. count_primes start stop thread_count = Some (Inr c))"
    using assms(2) by (simp add: count_primes_def split: option.splits)
  have "count_chunk start stop 0 = Some 0" using assms(1) by (rule count_chunk_empty)
  then show "count_primes start stop 1 = Some (Inr 0)"
    by (simp add: count_primes_def chunks_single worker_def)
  show "count_primes 5 3 2 = Some (Inr (word_of_nat (primes_between 5 9223372036854775812)))"
    by (rule count_primes_5_3_2)
qed

theorem count_primes_invalid_range_unreported_witness:
  "(2::u64) < 7 \<and> (3::u32) \<noteq> 0 \<and>
   (count_primes 7 2 3 = None \<or> (\<exists>c. count_primes 7 2 3 = Some (Inr c))) \<and>
   count_primes 7 2 1 = Some (Inr 0)"
  using count_primes_invalid_range_unreported [of 2 7 3] by simp

text \<open>
  \<^verbatim>\<open>thread_count == 0\<close> is what the default argument \<^verbatim>\<open>std::thread::hardware_concurrency()\<close>
  supplies when the number of threads is not known. The first computation of the call,
  \<^verbatim>\<open>(end - start + 1) / thread_count\<close>, then divides by zero.
\<close>

lemma count_primes_zero_threads: "count_primes start stop 0 = Some (Inl DivisionByZero)"
  by (simp add: count_primes_def)


section \<open>Proofs: the prime coroutine\<close>


lemma unat_of_nat_u64: "p < 18446744073709551616 \<Longrightarrow> unat (word_of_nat p :: u64) = p"
  by (simp add: unat_of_nat take_bit_nat_eq_self)

lemma prime_loop_scan:
  assumes "count < prime_max_count g" "prime_nat p" "p < 18446744073709551616"
    and "odd (unat num)" "3 \<le> unat num" "unat num \<le> p"
    and "\<And>q. unat num \<le> q \<Longrightarrow> q < p \<Longrightarrow> \<not> prime_nat q"
  shows "prime_loop g count num =
    Some (g\<lparr>prime_frame := PrimeYield count (word_of_nat p), prime_value := Some (word_of_nat p)\<rparr>)"
  using assms(4-7)
proof (induction "p - unat num" arbitrary: num rule: less_induct)
  case less
  have td: "trial_division num 3 = Some (prime_nat (unat num))"
    using less.prems(1,2) by (rule trial_division_correct)
  show ?case
  proof (cases "unat num = p")
    case True
    then have "word_of_nat p = num" by (metis of_nat_unat ucast_id)
    then show ?thesis
      using td True assms(1,2) by (subst prime_loop.simps) simp
  next
    case False
    then have lt: "unat num < p" using less.prems(3) by simp
    then have np: "\<not> prime_nat (unat num)" using less.prems(4) by simp
    have "2 < p" using lt less.prems(2) by simp
    then have "odd p" using assms(2) by (intro prime_nat_odd)
    then have le: "unat num + 2 \<le> p" using less.prems(1) lt by (intro odd_next_le)
    then have u: "unat (num + 2) = unat num + 2" using assms(3) by (intro unat_plus_2) simp
    have "prime_loop g count (num + 2) =
      Some (g\<lparr>prime_frame := PrimeYield count (word_of_nat p), prime_value := Some (word_of_nat p)\<rparr>)"
    proof (rule less.hyps)
      show "p - unat (num + 2) < p - unat num" using u le by simp
      show "odd (unat (num + 2))" using u less.prems(1) by simp
      show "3 \<le> unat (num + 2)" using u less.prems(2) by simp
      show "unat (num + 2) \<le> p" using u le by simp
      show "\<not> prime_nat q" if "unat (num + 2) \<le> q" "q < p" for q
        using that u less.prems(4) [of q] by simp
    qed
    then show ?thesis
      using td np assms(1) by (subst prime_loop.simps) simp
  qed
qed

lemma prime_next_initial:
  "prime_next (generate_primes m) = Some (Inr (2, prime_state_upto m 2))"
  by (simp add: prime_next_def prime_resume_def generate_primes_def prime_state_upto_def primes_upto_2)

lemma length_primes_upto_mono: "1 \<le> n \<Longrightarrow> length (primes_upto n) \<le> length (primes_upto (Suc n))"
  by (simp add: primes_upto_Suc)

lemma prime_next_from_yield2:
  assumes "1 < m" "prime_nat p" "p < 18446744073709551616" "3 \<le> p"
    and "\<And>q. 3 \<le> q \<Longrightarrow> q < p \<Longrightarrow> \<not> prime_nat q"
  shows "prime_next \<lparr>prime_max_count = m, prime_frame = PrimeYield2, prime_value = v\<rparr> =
    Some (Inr (word_of_nat p,
      \<lparr>prime_max_count = m, prime_frame = PrimeYield 1 (word_of_nat p),
       prime_value = Some (word_of_nat p)\<rparr>))"
proof -
  let ?g = "\<lparr>prime_max_count = m, prime_frame = PrimeYield2, prime_value = v\<rparr>"
  have "prime_loop ?g 1 3 =
    Some (?g\<lparr>prime_frame := PrimeYield 1 (word_of_nat p), prime_value := Some (word_of_nat p)\<rparr>)"
    using assms by (intro prime_loop_scan) auto
  then show ?thesis by (simp add: prime_next_def prime_resume_def)
qed

lemma prime_next_from_yield:
  assumes "c + 1 < m" "prime_nat p" "p < 18446744073709551616"
    and "odd q" "3 \<le> q" "q < p"
    and "\<And>t. q < t \<Longrightarrow> t < p \<Longrightarrow> \<not> prime_nat t"
  shows "prime_next \<lparr>prime_max_count = m, prime_frame = PrimeYield c (word_of_nat q), prime_value = v\<rparr> =
    Some (Inr (word_of_nat p,
      \<lparr>prime_max_count = m, prime_frame = PrimeYield (c + 1) (word_of_nat p),
       prime_value = Some (word_of_nat p)\<rparr>))"
proof -
  let ?g = "\<lparr>prime_max_count = m, prime_frame = PrimeYield c (word_of_nat q), prime_value = v\<rparr>"
  have "2 < p" using assms(5,6) by simp
  then have "odd p" using assms(2) by (intro prime_nat_odd)
  then have le: "q + 2 \<le> p" using assms(4,6) by (intro odd_next_le)
  have uq: "unat (word_of_nat q :: u64) = q" using assms(3,6) by (intro unat_of_nat_u64) simp
  have u: "unat (word_of_nat q + 2 :: u64) = q + 2"
    using le assms(3) uq by (subst unat_plus_2) auto
  have "prime_loop ?g (c + 1) (word_of_nat q + 2) =
    Some (?g\<lparr>prime_frame := PrimeYield (c + 1) (word_of_nat p), prime_value := Some (word_of_nat p)\<rparr>)"
  proof (rule prime_loop_scan)
    show "c + 1 < prime_max_count ?g" using assms(1) by simp
    show "odd (unat (word_of_nat q + 2 :: u64))" using u assms(4) by simp
    show "3 \<le> unat (word_of_nat q + 2 :: u64)" using u assms(5) by simp
    show "unat (word_of_nat q + 2 :: u64) \<le> p" using u le by simp
    show "\<not> prime_nat t" if "unat (word_of_nat q + 2 :: u64) \<le> t" "t < p" for t
      using that u assms(7) [of t] by simp
  qed (use assms in auto)
  then show ?thesis by (simp add: prime_next_def prime_resume_def)
qed

lemma prime_nexts_upto:
  assumes "2 \<le> n" "n < 18446744073709551616" "length (primes_upto n) \<le> unat m"
  shows "prime_nexts (length (primes_upto n)) (generate_primes m) =
    Some (Inr (map word_of_nat (primes_upto n), prime_state_upto m n))"
  using assms
proof (induction n rule: dec_induct)
  case base
  show ?case by (simp add: primes_upto_2 prime_next_initial)
next
  case (step n)
  let ?ps = "primes_upto n"
  let ?k = "length ?ps"
  have n1: "1 \<le> n" using step.hyps(1) by simp
  have IH: "prime_nexts ?k (generate_primes m) =
    Some (Inr (map word_of_nat ?ps, prime_state_upto m n))"
    using step.prems length_primes_upto_mono [OF n1] by (intro step.IH) auto
  show ?case
  proof (cases "prime_nat (Suc n)")
    case False
    then have "primes_upto (Suc n) = ?ps" using n1 by (simp add: primes_upto_Suc)
    then show ?thesis using IH by (simp add: prime_state_upto_def)
  next
    case True
    then have ps': "primes_upto (Suc n) = ?ps @ [Suc n]" using n1 by (simp add: primes_upto_Suc)
    then have k: "Suc ?k \<le> unat m" using step.prems(2) by simp
    have k64: "?k < 18446744073709551616" using k unat_u64_less [of m] by simp
    have kpos: "0 < ?k" using primes_upto_nonempty [OF step.hyps(1)] by simp
    have nxt: "prime_next (prime_state_upto m n) =
      Some (Inr (word_of_nat (Suc n), prime_state_upto m (Suc n)))"
    proof (cases "?k = 1")
      case one: True
      have "(1::u64) < m" using k one by (simp add: word_less_nat_alt)
      moreover have "\<not> prime_nat q" if "3 \<le> q" "q < Suc n" for q
        using primes_upto_singleton [OF one, of q] that by auto
      moreover have "3 \<le> Suc n" using step.hyps(1) by simp
      ultimately have "prime_next \<lparr>prime_max_count = m, prime_frame = PrimeYield2,
          prime_value = Some (word_of_nat (last ?ps))\<rparr> =
        Some (Inr (word_of_nat (Suc n),
          \<lparr>prime_max_count = m, prime_frame = PrimeYield 1 (word_of_nat (Suc n)),
           prime_value = Some (word_of_nat (Suc n))\<rparr>))"
        using True step.prems(1) by (intro prime_next_from_yield2) auto
      moreover have "(word_of_nat (Suc 0) :: u64) = 1" by simp
      ultimately show ?thesis using one by (simp add: prime_state_upto_def ps' del: of_nat_Suc)
    next
      case more: False
      let ?q = "last ?ps"
      have q: "prime_nat ?q" "?q \<le> n" "2 < ?q"
        using last_primes_upto(1,2) [OF step.hyps(1)] last_primes_upto_gt_2 [OF step.hyps(1) more]
        by auto
      have c: "(word_of_nat (?k - 1) :: u64) + 1 = word_of_nat ?k"
        using kpos by (cases ?k) simp_all
      have "unat (word_of_nat ?k :: u64) = ?k" using k64 by (rule unat_of_nat_u64)
      then have "(word_of_nat ?k :: u64) < m" using k by (simp add: word_less_nat_alt)
      then have c1: "(word_of_nat (?k - 1) :: u64) + 1 < m" using c by simp
      have gap: "\<not> prime_nat t" if "?q < t" "t < Suc n" for t
        using last_primes_upto(3) [OF step.hyps(1), of t] that by auto
      have step: "prime_next \<lparr>prime_max_count = m,
          prime_frame = PrimeYield (word_of_nat (?k - 1)) (word_of_nat ?q),
          prime_value = Some (word_of_nat ?q)\<rparr> =
        Some (Inr (word_of_nat (Suc n),
          \<lparr>prime_max_count = m,
           prime_frame = PrimeYield (word_of_nat (?k - 1) + 1) (word_of_nat (Suc n)),
           prime_value = Some (word_of_nat (Suc n))\<rparr>))"
        using c1 True step.prems(1) q gap prime_nat_odd [OF q(1,3)]
        by (intro prime_next_from_yield) auto
      have S: "prime_state_upto m n = \<lparr>prime_max_count = m,
          prime_frame = PrimeYield (word_of_nat (?k - 1)) (word_of_nat ?q),
          prime_value = Some (word_of_nat ?q)\<rparr>"
        using more by (simp add: prime_state_upto_def Let_def)
      have S': "prime_state_upto m (Suc n) = \<lparr>prime_max_count = m,
           prime_frame = PrimeYield (word_of_nat ?k) (word_of_nat (Suc n)),
           prime_value = Some (word_of_nat (Suc n))\<rparr>"
        using kpos by (simp add: prime_state_upto_def Let_def ps' del: of_nat_Suc)
      show ?thesis unfolding S S' using step unfolding c .
    qed
    show ?thesis
      unfolding ps' using IH nxt by (simp del: of_nat_Suc)
  qed
qed

lemma primes_upto_29: "primes_upto 29 = [2, 3, 5, 7, 11, 13, 17, 19, 23, 29]"
  by code_simp

lemma prime_values_upto:
  assumes "2 \<le> n" "n < 18446744073709551616" "length (primes_upto n) \<le> unat m"
  shows "prime_values m (length (primes_upto n)) = Some (Inr (map word_of_nat (primes_upto n)))"
  using prime_nexts_upto [OF assms] by (simp add: prime_values_def)

text \<open>
  Claim C6. The first call returns 2, for every \<open>max_count\<close>. The calls that follow return
  the odd primes in ascending order: for every \<open>n\<close> below \<open>2\<^sup>6\<^sup>4\<close> such that there are at
  most \<open>max_count\<close> primes up to \<open>n\<close>, the calls return exactly the primes up to \<open>n\<close>, and
  with \<open>max_count \<ge> 10\<close> the first ten values are \<open>2, 3, 5, 7, 11, 13, 17, 19, 23, 29\<close>. A
  generator suspended at the odd prime \<open>q\<close> returns the next prime \<open>p\<close> and is then
  suspended at \<open>p\<close>: the scan continues from \<open>q + 2\<close>, not from 3. The values are
  \<^verbatim>\<open>uint64_t\<close>, so the primes in question are those below \<open>2\<^sup>6\<^sup>4\<close>, and the generator is
  made for \<open>max_count\<close> values, so the calls in question are the first \<open>max_count\<close>.
\<close>

theorem prime_values_below_2_64:
  "prime_values max_count 1 = Some (Inr [2]) \<and>
   (2 \<le> n \<and> n < 2 ^ 64 \<and> length (primes_upto n) \<le> unat max_count \<longrightarrow>
      prime_values max_count (length (primes_upto n)) =
        Some (Inr (map word_of_nat (primes_upto n)))) \<and>
   (10 \<le> unat max_count \<longrightarrow>
      prime_values max_count 10 = Some (Inr [2, 3, 5, 7, 11, 13, 17, 19, 23, 29])) \<and>
   (c + 1 < max_count \<and> prime_nat q \<and> 2 < q \<and> prime_nat p \<and> q < p \<and> p < 2 ^ 64 \<and>
    (\<forall>t. q < t \<and> t < p \<longrightarrow> \<not> prime_nat t) \<longrightarrow>
      prime_next \<lparr>prime_max_count = max_count, prime_frame = PrimeYield c (word_of_nat q),
          prime_value = v\<rparr> =
        Some (Inr (word_of_nat p,
          \<lparr>prime_max_count = max_count, prime_frame = PrimeYield (c + 1) (word_of_nat p),
           prime_value = Some (word_of_nat p)\<rparr>)))"
proof (intro conjI impI)
  show "prime_values max_count 1 = Some (Inr [2])"
    by (simp add: prime_values_def prime_next_initial)
next
  assume "2 \<le> n \<and> n < 2 ^ 64 \<and> length (primes_upto n) \<le> unat max_count"
  then show "prime_values max_count (length (primes_upto n)) =
        Some (Inr (map word_of_nat (primes_upto n)))"
    by (intro prime_values_upto) auto
next
  assume "10 \<le> unat max_count"
  then have "prime_values max_count (length (primes_upto 29)) =
        Some (Inr (map word_of_nat (primes_upto 29)))"
    by (intro prime_values_upto) (simp_all add: primes_upto_29)
  moreover have "length (primes_upto 29) = 10" by (simp add: primes_upto_29)
  moreover have "map word_of_nat (primes_upto 29) = [2, 3, 5, 7, 11, 13, 17, 19, 23, 29 :: u64]"
    by (simp add: primes_upto_29)
  ultimately show "prime_values max_count 10 = Some (Inr [2, 3, 5, 7, 11, 13, 17, 19, 23, 29])"
    by (simp only:)
next
  assume a: "c + 1 < max_count \<and> prime_nat q \<and> 2 < q \<and> prime_nat p \<and> q < p \<and> p < 2 ^ 64 \<and>
    (\<forall>t. q < t \<and> t < p \<longrightarrow> \<not> prime_nat t)"
  then have "odd q" using prime_nat_odd by blast
  then show "prime_next \<lparr>prime_max_count = max_count, prime_frame = PrimeYield c (word_of_nat q),
          prime_value = v\<rparr> =
        Some (Inr (word_of_nat p,
          \<lparr>prime_max_count = max_count, prime_frame = PrimeYield (c + 1) (word_of_nat p),
           prime_value = Some (word_of_nat p)\<rparr>))"
    using a by (intro prime_next_from_yield) auto
qed

lemma prime_nat_7_11: "prime_nat 7" "prime_nat 11" "\<forall>t. 7 < t \<and> t < 11 \<longrightarrow> \<not> prime_nat t"
proof -
  show "prime_nat 7" "prime_nat 11" by code_simp+
  show "\<forall>t. 7 < t \<and> t < 11 \<longrightarrow> \<not> prime_nat t"
  proof (intro allI impI)
    fix t :: nat assume "7 < t \<and> t < 11"
    then consider "t = 8" | "t = 9" | "t = 10" by linarith
    then show "\<not> prime_nat t"
    proof cases
      case 1 then show ?thesis using prime_nat_dvd [of 8 2] by auto
    next
      case 2 then show ?thesis using prime_nat_dvd [of 9 3] by auto
    next
      case 3 then show ?thesis using prime_nat_dvd [of 10 2] by auto
    qed
  qed
qed

theorem prime_values_below_2_64_witness:
  "(2::nat) \<le> 29 \<and> (29::nat) < 2 ^ 64 \<and> length (primes_upto 29) \<le> unat (10::u64) \<and>
   10 \<le> unat (10::u64) \<and> (3::u64) + 1 < 10 \<and> prime_nat 7 \<and> (2::nat) < 7 \<and> prime_nat 11 \<and>
   (7::nat) < 11 \<and> (11::nat) < 2 ^ 64 \<and> \<not> prime_nat 8 \<and> \<not> prime_nat 9 \<and> \<not> prime_nat 10 \<and>
   prime_values 10 1 = Some (Inr [2]) \<and>
   prime_values 10 (length (primes_upto 29)) = Some (Inr (map word_of_nat (primes_upto 29))) \<and>
   prime_values 10 10 = Some (Inr [2, 3, 5, 7, 11, 13, 17, 19, 23, 29]) \<and>
   prime_next \<lparr>prime_max_count = 10, prime_frame = PrimeYield 3 7, prime_value = Some 7\<rparr> =
     Some (Inr (11, \<lparr>prime_max_count = 10, prime_frame = PrimeYield 4 11,
       prime_value = Some 11\<rparr>))"
proof -
  have h: "(2::nat) \<le> 29 \<and> (29::nat) < 2 ^ 64 \<and> length (primes_upto 29) \<le> unat (10::u64)"
    "10 \<le> unat (10::u64)"
    "(3::u64) + 1 < 10 \<and> prime_nat 7 \<and> (2::nat) < 7 \<and> prime_nat 11 \<and>
      (7::nat) < 11 \<and> (11::nat) < 2 ^ 64 \<and> (\<forall>t. 7 < t \<and> t < 11 \<longrightarrow> \<not> prime_nat t)"
    using prime_nat_7_11 by (simp_all add: primes_upto_29)
  note t = prime_values_below_2_64 [of 10 29 3 7 11 "Some 7"]
  have "\<not> prime_nat 8" "\<not> prime_nat 9" "\<not> prime_nat 10"
    using prime_nat_7_11(3) by simp_all
  with t h show ?thesis by simp
qed


section \<open>Proofs: the factorisation at \<^verbatim>\<open>T = uint64_t\<close>\<close>


lemma divide_twos_result:
  assumes "n \<noteq> 0"
  shows "\<exists>k n'. divide_twos_u64 n fs = Some (n', fs @ replicate k 2) \<and>
           unat n = unat n' * 2 ^ k \<and> odd (unat n')"
  using assms
proof (induction "unat n" arbitrary: n fs rule: less_induct)
  case less
  show ?case
  proof (cases "n mod 2 = 0")
    case False
    then have "odd (unat n)" by (simp add: word_mod_eq_0_iff_dvd)
    moreover have "divide_twos_u64 n fs = Some (n, fs)"
      using False by (subst divide_twos_u64.simps) simp
    ultimately show ?thesis by (intro exI [of _ 0] exI [of _ n]) simp
  next
    case True
    then have ev: "even (unat n)" by (auto simp: word_mod_eq_0_iff_dvd)
    have pos: "0 < unat n" using less.prems by (simp add: unat_gt_0)
    have u: "unat (n div 2) = unat n div 2" by (simp add: unat_div)
    have "unat (n div 2) < unat n" using u pos by simp
    moreover have "n div 2 \<noteq> 0" using u ev pos by (auto simp: unat_eq_0 elim!: evenE)
    ultimately obtain k n' where
      r: "divide_twos_u64 (n div 2) (fs @ [2]) = Some (n', (fs @ [2]) @ replicate k 2)"
      and v: "unat (n div 2) = unat n' * 2 ^ k" and o: "odd (unat n')"
      using less.hyps [of "n div 2" "fs @ [2]"] by blast
    have "divide_twos_u64 n fs = Some (n', fs @ replicate (Suc k) 2)"
      using True r by (subst divide_twos_u64.simps) simp
    moreover have "unat n = unat n' * 2 ^ Suc k"
      using v u ev by (auto elim!: evenE)
    ultimately show ?thesis using o by blast
  qed
qed

lemma divide_out_result:
  assumes "current_n \<noteq> 0" "2 \<le> unat i"
  shows "\<exists>k c. divide_out_u64 i current_n fs = Some (c, fs @ replicate k i) \<and>
           unat current_n = unat c * unat i ^ k \<and> \<not> unat i dvd unat c \<and> c \<noteq> 0"
  using assms(1)
proof (induction "unat current_n" arbitrary: current_n fs rule: less_induct)
  case less
  have i0: "i \<noteq> 0" using assms(2) by (auto simp: unat_eq_0)
  show ?case
  proof (cases "current_n mod i = 0")
    case False
    then have "\<not> unat i dvd unat current_n" by (simp add: word_mod_eq_0_iff_dvd)
    moreover have "divide_out_u64 i current_n fs = Some (current_n, fs)"
      using False by (subst divide_out_u64.simps) simp
    ultimately show ?thesis using less.prems
      by (intro exI [of _ 0] exI [of _ current_n]) simp
  next
    case True
    then have dv: "unat i dvd unat current_n" using i0 by (simp add: word_mod_eq_0_iff_dvd)
    have pos: "0 < unat current_n" using less.prems by (simp add: unat_gt_0)
    have u: "unat (current_n div i) = unat current_n div unat i" by (simp add: unat_div)
    have eq: "unat current_n = (unat current_n div unat i) * unat i" using dv by simp
    have "unat current_n div unat i < unat current_n" using pos assms(2) by (intro div_less_dividend) auto
    then have lt: "unat (current_n div i) < unat current_n" using u by simp
    have "unat current_n div unat i \<noteq> 0" using eq pos by (metis mult_zero_left less_numeral_extra(3))
    then have "current_n div i \<noteq> 0" using u by (auto simp: unat_eq_0)
    with lt obtain k c where
      r: "divide_out_u64 i (current_n div i) (fs @ [i]) = Some (c, (fs @ [i]) @ replicate k i)"
      and v: "unat (current_n div i) = unat c * unat i ^ k"
      and nd: "\<not> unat i dvd unat c" "c \<noteq> 0"
      using less.hyps [of "current_n div i" "fs @ [i]"] by blast
    have "divide_out_u64 i current_n fs = Some (c, fs @ replicate (Suc k) i)"
      using True r by (subst divide_out_u64.simps) simp
    moreover have "unat current_n = unat c * unat i ^ Suc k"
      using eq v u by simp
    ultimately show ?thesis using nd by blast
  qed
qed

lemma prime_factor_of_odd:
  assumes "prime_nat q" "q dvd n" "odd n"
  shows "odd q" "3 \<le> q"
proof -
  have "q \<noteq> 2" using assms(2,3) by auto
  then have "2 < q" using prime_nat_ge_2 [OF assms(1)] by simp
  then show "odd q" "3 \<le> q" using prime_nat_odd [OF assms(1)] by auto
qed

lemma one_or_prime_at_exit:
  fixes i current_n :: u64
  assumes "\<not> i * i \<le> current_n" "0 < unat current_n"
    and "\<And>q. prime_nat q \<Longrightarrow> q dvd unat current_n \<Longrightarrow> unat i \<le> q"
  shows "unat current_n = 1 \<or> prime_nat (unat current_n)"
proof (rule ccontr)
  assume "\<not> (unat current_n = 1 \<or> prime_nat (unat current_n))"
  then have "1 < unat current_n" "\<not> prime_nat (unat current_n)" using assms(2) by auto
  then obtain q where q: "prime_nat q" "q dvd unat current_n" "q * q \<le> unat current_n"
    using prime_factor_exists [of "unat current_n"] by auto
  have iq: "unat i \<le> q" using q(1,2) by (rule assms(3))
  have "q * q < 18446744073709551616" using q(3) unat_u64_less [of current_n] by simp
  then have "q < 4294967296" by (rule square_less_2_64)
  then have "unat (i * i) = unat i * unat i" using iq by (intro unat_square_small) simp
  moreover have "unat i * unat i \<le> q * q" using iq by (intro mult_le_mono)
  ultimately have "i * i \<le> current_n" using q(3) by (simp add: word_le_nat_alt)
  then show False using assms(1) by simp
qed

lemma check_fails_at_root_minus_7:
  fixes i current_n :: u64
  assumes "unat i = root_minus_7"
    and "\<And>q. prime_nat q \<Longrightarrow> q dvd unat current_n \<Longrightarrow> unat i \<le> q"
  shows "\<not> i * i \<le> current_n"
proof (rule root_minus_7_check_fails [OF _ assms(1)], rule ccontr)
  assume "\<not> unat current_n \<le> 18446744073709551608"
  then obtain d where d: "1 < d" "d < 14" "d dvd unat current_n"
    using small_factor_at_top [of "unat current_n"] unat_u64_less [of current_n] by auto
  obtain q where q: "prime_nat q" "q dvd d" using prime_factor_exists [OF d(1)] by blast
  have "0 < d" using d(1) by simp
  then have "q \<le> d" using q(2) by (intro dvd_imp_le) auto
  moreover have "unat i \<le> q" using q d(3) by (intro assms(2)) (auto intro: dvd_trans)
  ultimately show False using d(2) assms(1) by (simp add: root_minus_7_def)
qed

lemma divisor_is_prime:
  assumes "1 < i" "i dvd n" "\<And>q. prime_nat q \<Longrightarrow> q dvd n \<Longrightarrow> i \<le> q"
  shows "prime_nat (i::nat)"
proof -
  obtain q where q: "prime_nat q" "q dvd i" using prime_factor_exists [OF assms(1)] by blast
  have "q \<le> i" using q(2) assms(1) by (intro dvd_imp_le) auto
  moreover have "i \<le> q" using q assms(2) by (intro assms(3)) (auto intro: dvd_trans)
  ultimately show ?thesis using q(1) by simp
qed

lemma sorted_replicate_append:
  fixes a :: nat
  shows "sorted ys \<Longrightarrow> \<forall>y \<in> set ys. a \<le> y \<Longrightarrow> sorted (replicate k a @ ys)"
  by (induction k) auto

lemma odd_factors_result:
  assumes "odd (unat i)" "3 \<le> unat i" "unat i \<le> root_minus_7" "odd (unat current_n)"
    and "\<And>q. prime_nat q \<Longrightarrow> q dvd unat current_n \<Longrightarrow> unat i \<le> q"
  shows "\<exists>c gs. odd_factors_u64 i current_n fs = Some (c, fs @ gs) \<and>
           sorted (map unat gs @ (if 2 < unat c then [unat c] else [])) \<and>
           (\<forall>h \<in> set (map unat gs @ (if 2 < unat c then [unat c] else [])).
              prime_nat h \<and> unat i \<le> h) \<and>
           prod_list (map unat gs @ (if 2 < unat c then [unat c] else [])) = unat current_n"
  using assms
proof (induction "root_minus_7 - unat i" arbitrary: i current_n fs rule: less_induct)
  case less
  have pos: "0 < unat current_n" using less.prems(4) by (auto elim: oddE)
  show ?case
  proof (cases "i * i \<le> current_n")
    case False
    have r: "odd_factors_u64 i current_n fs = Some (current_n, fs @ [])"
      using False by (subst odd_factors_u64.simps) simp
    from one_or_prime_at_exit [OF False pos less.prems(5)]
    show ?thesis
    proof
      assume "unat current_n = 1"
      then show ?thesis using r by (intro exI [of _ current_n] exI [of _ "[]"]) simp
    next
      assume p: "prime_nat (unat current_n)"
      then have "unat i \<le> unat current_n" by (intro less.prems(5)) auto
      moreover have "2 < unat current_n" using less.prems(4) prime_nat_ge_2 [OF p]
        by (cases "unat current_n = 2") auto
      ultimately show ?thesis using r p
        by (intro exI [of _ current_n] exI [of _ "[]"]) simp
    qed
  next
    case True
    then have "unat i \<noteq> root_minus_7"
      using check_fails_at_root_minus_7 [of i current_n] less.prems(5) by blast
    then have lt: "unat i < root_minus_7" using less.prems(3) by simp
    have "odd root_minus_7" by (simp add: root_minus_7_def)
    then have le: "unat i + 2 \<le> root_minus_7" using less.prems(1) lt by (intro odd_next_le)
    then have u: "unat (i + 2) = unat i + 2"
      by (intro unat_plus_2) (simp add: root_minus_7_def)
    have cn0: "current_n \<noteq> 0" using pos by (simp add: unat_gt_0)
    have i2: "2 \<le> unat i" using less.prems(2) by simp
    from divide_out_result [OF cn0 i2, of fs] obtain k c where
      d: "divide_out_u64 i current_n fs = Some (c, fs @ replicate k i)"
      and v: "unat current_n = unat c * unat i ^ k"
      and nd: "\<not> unat i dvd unat c" "c \<noteq> 0"
      by blast
    have cdvd: "unat c dvd unat current_n" using v by simp
    have oc: "odd (unat c)" using less.prems(4) cdvd by (auto elim: dvdE)
    have pf: "unat (i + 2) \<le> q" if q: "prime_nat q" "q dvd unat c" for q
    proof -
      have "q dvd unat current_n" using q(2) cdvd by (rule dvd_trans)
      then have "unat i \<le> q" using q(1) by (intro less.prems(5))
      moreover have "q \<noteq> unat i" using q(2) nd(1) by auto
      moreover have "odd q" using q oc by (rule prime_factor_of_odd)
      ultimately show ?thesis unfolding u using less.prems(1) by (intro odd_next_le) auto
    qed
    have "\<exists>c' gs. odd_factors_u64 (i + 2) c (fs @ replicate k i) = Some (c', (fs @ replicate k i) @ gs) \<and>
           sorted (map unat gs @ (if 2 < unat c' then [unat c'] else [])) \<and>
           (\<forall>h \<in> set (map unat gs @ (if 2 < unat c' then [unat c'] else [])).
              prime_nat h \<and> unat (i + 2) \<le> h) \<and>
           prod_list (map unat gs @ (if 2 < unat c' then [unat c'] else [])) = unat c"
    proof (rule less.hyps)
      show "root_minus_7 - unat (i + 2) < root_minus_7 - unat i" using u le by simp
      show "odd (unat (i + 2))" using u less.prems(1) by simp
      show "3 \<le> unat (i + 2)" using u less.prems(2) by simp
      show "unat (i + 2) \<le> root_minus_7" using u le by simp
      show "odd (unat c)" by (rule oc)
      show "unat (i + 2) \<le> q" if "prime_nat q" "q dvd unat c" for q using that by (rule pf)
    qed
    then obtain c' gs where
      r: "odd_factors_u64 (i + 2) c (fs @ replicate k i) = Some (c', (fs @ replicate k i) @ gs)"
      and srt: "sorted (map unat gs @ (if 2 < unat c' then [unat c'] else []))"
      and prm: "\<forall>h \<in> set (map unat gs @ (if 2 < unat c' then [unat c'] else [])).
              prime_nat h \<and> unat (i + 2) \<le> h"
      and prd: "prod_list (map unat gs @ (if 2 < unat c' then [unat c'] else [])) = unat c"
      by blast
    let ?tl = "map unat gs @ (if 2 < unat c' then [unat c'] else [])"
    have full: "odd_factors_u64 i current_n fs = Some (c', fs @ (replicate k i @ gs))"
      using True d r by (subst odd_factors_u64.simps) simp
    have m: "map unat (replicate k i @ gs) @ (if 2 < unat c' then [unat c'] else []) =
      replicate k (unat i) @ ?tl" by simp
    have ip: "prime_nat (unat i)" if "0 < k"
    proof (rule divisor_is_prime [of _ "unat current_n"])
      show "1 < unat i" using less.prems(2) by simp
      show "unat i dvd unat current_n" using v that by (cases k) auto
      show "unat i \<le> q" if "prime_nat q" "q dvd unat current_n" for q
        using that by (rule less.prems(5))
    qed
    have ge: "\<forall>h \<in> set ?tl. unat i \<le> h"
    proof
      fix h assume "h \<in> set ?tl"
      then have "unat (i + 2) \<le> h" using prm by blast
      then show "unat i \<le> h" using u by simp
    qed
    have s: "sorted (replicate k (unat i) @ ?tl)"
      using srt ge by (rule sorted_replicate_append)
    have p: "\<forall>h \<in> set (replicate k (unat i) @ ?tl). prime_nat h \<and> unat i \<le> h"
    proof
      fix h assume "h \<in> set (replicate k (unat i) @ ?tl)"
      then consider "h = unat i" "0 < k" | "h \<in> set ?tl" by (cases k) auto
      then show "prime_nat h \<and> unat i \<le> h"
      proof cases
        case 1
        then show ?thesis using ip by simp
      next
        case 2
        then show ?thesis using prm ge by blast
      qed
    qed
    have "prod_list (replicate k (unat i) @ ?tl) = unat i ^ k * unat c"
      using prd by (simp add: prod_list_replicate)
    then have q: "prod_list (replicate k (unat i) @ ?tl) = unat current_n"
      using v by (simp add: mult.commute)
    show ?thesis
      using full s p q unfolding m [symmetric] by blast
  qed
qed

lemma prime_factors_result:
  assumes "n \<noteq> 0"
  shows "\<exists>fs. prime_factors_u64 n = Some fs \<and> sorted (map unat fs) \<and>
           (\<forall>f \<in> set fs. prime_nat (unat f)) \<and> prod_list (map unat fs) = unat n"
proof -
  from divide_twos_result [OF assms, of "[]"] obtain k n' where
    t: "divide_twos_u64 n [] = Some (n', replicate k 2)"
    and v: "unat n = unat n' * 2 ^ k" and o: "odd (unat n')"
    by auto
  have "\<exists>c gs. odd_factors_u64 3 n' (replicate k 2) = Some (c, replicate k 2 @ gs) \<and>
           sorted (map unat gs @ (if 2 < unat c then [unat c] else [])) \<and>
           (\<forall>h \<in> set (map unat gs @ (if 2 < unat c then [unat c] else [])).
              prime_nat h \<and> unat (3::u64) \<le> h) \<and>
           prod_list (map unat gs @ (if 2 < unat c then [unat c] else [])) = unat n'"
  proof (rule odd_factors_result)
    show "unat (3::u64) \<le> q" if "prime_nat q" "q dvd unat n'" for q
      using prime_factor_of_odd(2) [OF that o] by simp
  qed (use o in \<open>simp_all add: root_minus_7_def\<close>)
  then obtain c gs where
    r: "odd_factors_u64 3 n' (replicate k 2) = Some (c, replicate k 2 @ gs)"
    and srt: "sorted (map unat gs @ (if 2 < unat c then [unat c] else []))"
    and prm: "\<forall>h \<in> set (map unat gs @ (if 2 < unat c then [unat c] else [])).
              prime_nat h \<and> unat (3::u64) \<le> h"
    and prd: "prod_list (map unat gs @ (if 2 < unat c then [unat c] else [])) = unat n'"
    by blast
  let ?tl = "map unat gs @ (if 2 < unat c then [unat c] else [])"
  let ?fs = "if 2 < c then (replicate k 2 @ gs) @ [c] else replicate k 2 @ gs"
  have lt: "2 < c \<longleftrightarrow> 2 < unat c" by (simp add: word_less_nat_alt)
  have res: "prime_factors_u64 n = Some ?fs"
    using t r by (simp add: prime_factors_u64_def)
  have m: "map unat ?fs = replicate k 2 @ ?tl" using lt by simp
  have ge: "\<forall>h \<in> set ?tl. 2 \<le> h"
  proof
    fix h assume "h \<in> set ?tl"
    then have "prime_nat h" using prm by blast
    then show "2 \<le> h" by (rule prime_nat_ge_2)
  qed
  have "sorted (replicate k 2 @ ?tl)" using srt ge by (rule sorted_replicate_append)
  then have s: "sorted (map unat ?fs)" unfolding m .
  have "\<forall>h \<in> set (replicate k 2 @ ?tl). prime_nat h"
    using prm prime_nat_2 by auto
  then have "\<forall>h \<in> set (map unat ?fs). prime_nat h" unfolding m .
  then have p: "\<forall>f \<in> set ?fs. prime_nat (unat f)" by simp
  have "prod_list (replicate k 2 @ ?tl) = 2 ^ k * unat n'"
    using prd by (simp add: prod_list_replicate)
  then have q: "prod_list (map unat ?fs) = unat n"
    unfolding m using v by (simp add: mult.commute)
  show ?thesis using res s p q by blast
qed

lemma prime_factors_1: "prime_factors_u64 1 = Some []"
  by code_simp

lemma prime_factors_840: "prime_factors_u64 840 = Some [2, 2, 2, 3, 5, 7]"
  by code_simp

text \<open>
  At \<^verbatim>\<open>T = uint64_t\<close> the factorisation is right. For every \<open>n \<ge> 2\<close> the call returns, and
  what it returns is a non-decreasing list of primes with product \<open>n\<close>; for \<open>n = 1\<close> it
  returns the empty list. The products \<open>i * i\<close> of the loop test wrap around for
  \<open>i \<ge> 2\<^sup>3\<^sup>2\<close>; the result is right all the same.
\<close>

lemma prime_factors_u64_correct:
  "(2 \<le> n \<longrightarrow>
      (\<exists>fs. prime_factors_u64 n = Some fs \<and> sorted (map unat fs) \<and>
         (\<forall>f \<in> set fs. prime_nat (unat f)) \<and> prod_list (map unat fs) = unat n)) \<and>
   prime_factors_u64 1 = Some []"
proof (intro conjI impI)
  assume "2 \<le> n"
  then have "n \<noteq> 0" by auto
  then show "\<exists>fs. prime_factors_u64 n = Some fs \<and> sorted (map unat fs) \<and>
         (\<forall>f \<in> set fs. prime_nat (unat f)) \<and> prod_list (map unat fs) = unat n"
    by (rule prime_factors_result)
next
  show "prime_factors_u64 1 = Some []" by (rule prime_factors_1)
qed


section \<open>Proofs: the factorisation at \<^verbatim>\<open>T = int\<close>\<close>

lemma prime_factors_int_840: "prime_factors_int 840 = Some (Inr [2, 2, 2, 3, 5, 7])"
  by code_simp

text \<open>The call of the stress test.\<close>

lemma prime_factors_int_1234567890:
  "prime_factors_int 1234567890 = Some (Inr [2, 3, 3, 5, 3607, 3803])"
  by code_simp

subsection \<open>The divisors of \<open>2\<^sup>3\<^sup>1 - 1\<close>\<close>

text \<open>
  \<open>2\<^sup>3\<^sup>1 - 1 = 2147483647\<close> is \<^verbatim>\<open>INT_MAX\<close>, and it is a prime. A prime \<open>p\<close> divides the binomial
  coefficients \<open>p choose k\<close> for \<open>0 < k < p\<close>, so \<open>2\<^sup>p = 2 + p t\<close>, and for odd \<open>p\<close> the power
  \<open>2\<^bsup>p - 1\<^esup>\<close> is 1 modulo \<open>p\<close>. If \<open>p\<close> divides \<open>2\<^sup>3\<^sup>1 - 1\<close> then \<open>2\<^sup>3\<^sup>1\<close> is 1 modulo \<open>p\<close> as
  well, hence so is 2 to the greatest common divisor of 31 and \<open>p - 1\<close>, which must be 31.
  So \<open>p\<close> is \<open>62 j + 1\<close> for some \<open>j\<close>, and the 747 numbers of this form up to 46340 are
  tried one by one.
\<close>

lemma prime_nat_coprime:
  assumes "prime_nat p" "0 < k" "k < p"
  shows "coprime p k"
proof (rule coprimeI)
  fix d assume d: "d dvd p" "d dvd k"
  then have "d \<le> k" using assms(2) by (intro dvd_imp_le) auto
  then have "d \<noteq> p" using assms(3) by simp
  then have "d = 1" using prime_nat_dvd [OF assms(1) d(1)] by simp
  then show "is_unit d" by simp
qed

lemma prime_nat_dvd_choose:
  assumes "prime_nat p" "0 < k" "k < p"
  shows "p dvd (p choose k)"
proof -
  have "k * (p choose k) = p * ((p - 1) choose (k - 1))"
    using assms(2) by (rule times_binomial_minus1_eq)
  then have "p dvd k * (p choose k)" by simp
  moreover have "coprime p k" using assms by (rule prime_nat_coprime)
  ultimately show ?thesis by (simp add: coprime_dvd_mult_right_iff)
qed

lemma two_power_prime:
  assumes "prime_nat p"
  shows "\<exists>t. (2::nat) ^ p = 2 + p * t"
proof -
  have p: "1 < p" using assms by (simp add: prime_nat_def)
  have set: "{..p} = insert 0 (insert p {1..<p})" using p by auto
  have "(2::nat) ^ p = (\<Sum>k\<le>p. p choose k)" by (simp add: choose_row_sum)
  also have "\<dots> = 2 + (\<Sum>k \<in> {1..<p}. p choose k)"
    unfolding set using p by simp
  finally have e: "(2::nat) ^ p = 2 + (\<Sum>k \<in> {1..<p}. p choose k)" .
  have "p dvd (\<Sum>k \<in> {1..<p}. p choose k)"
    using assms by (intro dvd_sum prime_nat_dvd_choose) auto
  then obtain t where "(\<Sum>k \<in> {1..<p}. p choose k) = p * t" by (auto simp: dvd_def)
  with e show ?thesis by auto
qed

lemma fermat_base_2:
  assumes "prime_nat p" "odd p"
  shows "(2::nat) ^ (p - 1) mod p = 1"
proof -
  have p: "1 < p" using assms by (simp add: prime_nat_def)
  obtain t where t: "(2::nat) ^ p = 2 + p * t" using two_power_prime [OF assms(1)] by blast
  have "(2::nat) ^ p = 2 * 2 ^ (p - 1)" using p by (cases p) auto
  with t have e: "2 * (2::nat) ^ (p - 1) = 2 + p * t" by simp
  then have "p * t = 2 * (2::nat) ^ (p - 1) - 2" by simp
  also have "\<dots> = 2 * ((2::nat) ^ (p - 1) - 1)" by (simp add: diff_mult_distrib2)
  finally have "even (p * t)" by simp
  then have "even t" using assms(2) by simp
  then obtain s where s: "t = 2 * s" by (auto elim: evenE)
  with e have "(2::nat) ^ (p - 1) = 1 + p * s" by simp
  then have "(2::nat) ^ (p - 1) mod p = 1 mod p" by (simp only: mod_mult_self2)
  then show ?thesis using p by simp
qed

lemma power_mod_1_diff:
  fixes a :: nat
  assumes "a ^ m mod p = 1" "a ^ n mod p = 1" "n \<le> m"
  shows "a ^ (m - n) mod p = 1"
proof -
  have "a ^ m = a ^ (m - n) * a ^ n" using assms(3) by (simp flip: power_add)
  then have "a ^ m mod p = (a ^ (m - n) mod p) * (a ^ n mod p) mod p"
    by (simp add: mod_mult_eq)
  then have "(a ^ (m - n) mod p) mod p = 1" using assms(1,2) by simp
  then show ?thesis by simp
qed

lemma power_mod_1_gcd:
  fixes a :: nat
  assumes "a ^ m mod p = 1" "a ^ n mod p = 1"
  shows "a ^ gcd m n mod p = 1"
  using assms
proof (induction "m + n" arbitrary: m n rule: less_induct)
  case less
  show ?case
  proof (cases "m = 0 \<or> n = 0")
    case True
    then show ?thesis using less.prems by auto
  next
    case False
    then have pos: "0 < m" "0 < n" by auto
    show ?thesis
    proof (cases "n \<le> m")
      case True
      have "a ^ (m - n) mod p = 1" using less.prems True by (rule power_mod_1_diff)
      moreover have "(m - n) + n < m + n" using pos by simp
      ultimately have "a ^ gcd (m - n) n mod p = 1" using less.prems(2) by (intro less.hyps)
      moreover have "gcd (m - n) n = gcd m n" using True by (simp add: gcd_diff1_nat)
      ultimately show ?thesis by simp
    next
      case False
      then have le: "m \<le> n" by simp
      have "a ^ (n - m) mod p = 1" using less.prems(2,1) le by (rule power_mod_1_diff)
      moreover have "m + (n - m) < m + n" using pos by simp
      ultimately have "a ^ gcd m (n - m) mod p = 1" using less.prems(1) by (intro less.hyps)
      moreover have "gcd m (n - m) = gcd m n" using le by (metis gcd.commute gcd_diff1_nat)
      ultimately show ?thesis by simp
    qed
  qed
qed

lemma prime_nat_31: "prime_nat 31"
  by code_simp

lemma mersenne_31_factor:
  assumes "prime_nat p" "p dvd 2147483647"
  shows "p mod 62 = 1"
proof -
  have p: "1 < p" using assms by (simp add: prime_nat_def)
  have "odd p" using assms(2) by (metis dvd_trans odd_numeral)
  then have f: "(2::nat) ^ (p - 1) mod p = 1" using assms(1) by (intro fermat_base_2)
  have "(2::nat) ^ 31 = 1 + 2147483647" by simp
  then have "(2::nat) ^ 31 mod p = 1" using assms(2) p by (metis mod_add_right_eq dvd_imp_mod_0 add_0_right mod_less)
  then have g: "(2::nat) ^ gcd 31 (p - 1) mod p = 1" using f by (rule power_mod_1_gcd)
  have "gcd 31 (p - 1) dvd 31" by simp
  then have "gcd 31 (p - 1) = 1 \<or> gcd 31 (p - 1) = 31"
    using prime_nat_31 by (rule prime_nat_dvd [rotated])
  moreover have "gcd 31 (p - 1) \<noteq> 1"
  proof
    assume "gcd 31 (p - 1) = 1"
    with g have "(2::nat) mod p = 1" by simp
    moreover have "2 < p" using p \<open>odd p\<close> by (cases "p = 2") auto
    ultimately show False by simp
  qed
  ultimately have "gcd 31 (p - 1) = 31" by simp
  then have "31 dvd p - 1" by (metis gcd_dvd2)
  moreover have "2 dvd p - 1" using \<open>odd p\<close> by simp
  ultimately have "62 dvd p - 1" 
    using coprime_dvd_mult_left_iff [of 31 2] by (auto elim!: dvdE simp: dvd_def) presburger
  then obtain a where "p - 1 = 62 * a" by (auto simp: dvd_def)
  then have "p = 62 * a + 1" using p by simp
  then show ?thesis by simp
qed

lemma no_divisor_from_nth:
  "no_divisor_from n i s k \<Longrightarrow> j < k \<Longrightarrow> n mod (i + s * int j) \<noteq> 0"
proof (induction k arbitrary: i j)
  case 0
  then show ?case by simp
next
  case (Suc k)
  show ?case
  proof (cases j)
    case 0
    then show ?thesis using Suc.prems by simp
  next
    case (Suc j')
    then have "n mod (i + s + s * int j') \<noteq> 0" using Suc.prems by (intro Suc.IH) auto
    then show ?thesis using Suc by (simp add: algebra_simps)
  qed
qed

lemma mersenne_31_scan: "no_divisor_from 2147483647 63 62 747"
  by code_simp

lemma mersenne_31_no_small_divisor:
  assumes "2 \<le> i" "i \<le> 46340"
  shows "\<not> i dvd (2147483647::nat)"
proof
  assume d: "i dvd (2147483647::nat)"
  obtain q where q: "prime_nat q" "q dvd i"
    using prime_factor_exists [of i] assms(1) by auto
  have "q dvd (2147483647::nat)" using q(2) d by (rule dvd_trans)
  then have m: "q mod 62 = 1" using q(1) by (intro mersenne_31_factor)
  have "q \<le> i" using q(2) assms(1) by (intro dvd_imp_le) auto
  then have le: "q \<le> 46340" using assms(2) by simp
  have "2 \<le> q" using q(1) by (simp add: prime_nat_def)
  define j where "j = q div 62 - 1"
  have "q = 62 * (q div 62) + 1" using m by (metis mult_div_mod_eq)
  then have "q = 63 + 62 * j" "j < 747" using le \<open>2 \<le> q\<close> unfolding j_def by auto
  then have "2147483647 mod (63 + 62 * int j) \<noteq> 0"
    using no_divisor_from_nth [OF mersenne_31_scan, of j] by simp
  moreover have "int q dvd int 2147483647" using \<open>q dvd 2147483647\<close> by (simp only: int_dvd_int_iff)
  ultimately show False using \<open>q = 63 + 62 * j\<close> by (simp add: dvd_eq_mod_eq_0)
qed

lemma smod_nonneg: "0 \<le> (a::int) \<Longrightarrow> 0 < b \<Longrightarrow> a smod b = a mod b"
  by (simp add: smod_int_alt_def sgn_if)

lemma odd_factors_int_mersenne_31:
  assumes "3 \<le> i" "i \<le> 46341" "odd i"
  shows "odd_factors_int i 2147483647 fs = Some (Inl SignedOverflow)"
  using assms
proof (induction "nat (46341 - i)" arbitrary: i rule: less_induct)
  case less
  show ?case
  proof (cases "i = 46341")
    case True
    then show ?thesis by (subst odd_factors_int.simps) (simp add: INT_MAX_def)
  next
    case False
    then have "i \<noteq> 46340" using less.prems(3) by auto
    then have i: "i \<le> 46339" using False less.prems(2) by simp
    then have "i * i \<le> 46339 * 46339" using less.prems(1) by (intro mult_mono) auto
    then have sq: "i * i \<le> 2147302921" by simp
    have "\<not> nat i dvd (2147483647::nat)"
      using less.prems(1) i by (intro mersenne_31_no_small_divisor) auto
    then have "\<not> i dvd 2147483647"
      using less.prems(1) by (metis int_dvd_int_iff int_nat_eq of_nat_numeral zero_le_numeral order_trans)
    then have "2147483647 smod i \<noteq> 0"
      using less.prems(1) by (simp add: smod_nonneg dvd_eq_mod_eq_0)
    then have d: "divide_out_int i 2147483647 fs = Some (2147483647, fs)"
      by (subst divide_out_int.simps) simp
    have "odd_factors_int (i + 2) 2147483647 fs = Some (Inl SignedOverflow)"
      using less.prems i by (intro less.hyps) auto
    then show ?thesis
      using sq i d by (subst odd_factors_int.simps) (simp add: INT_MAX_def)
  qed
qed

text \<open>
  Claim C10 fails on the code at \<^verbatim>\<open>T = int\<close> and \<open>n = 2147483647\<close>, a prime. The first loop
  does nothing, \<open>n\<close> being odd. The second loop finds no divisor and comes to \<open>i = 46341\<close>
  with \<open>current_n = n\<close> (\<open>46339\<^sup>2 = 2147302921 \<le> n\<close>); there the product \<open>i * i\<close> of the
  loop test is \<open>2147488281\<close>, above \<^verbatim>\<open>INT_MAX\<close>: a signed overflow, and no list \<open>[n]\<close>.
\<close>

theorem prime_factors_int_overflow:
  "prime_factors_int 2147483647 = Some (Inl SignedOverflow)"
proof -
  have "sint (2147483647 :: i32) = 2147483647" by simp
  moreover have "divide_twos_int 2147483647 [] = Some (2147483647, [])"
    by (subst divide_twos_int.simps) (simp add: smod_nonneg)
  moreover have "odd_factors_int 3 2147483647 [] = Some (Inl SignedOverflow)"
    by (rule odd_factors_int_mersenne_31) simp_all
  ultimately show ?thesis by (simp add: prime_factors_int_def)
qed


section \<open>Proofs: the sieve\<close>

subsection \<open>Limits below \<open>65535\<^sup>2\<close>\<close>

text \<open>
  For a limit below \<open>65535\<^sup>2 = 2\<^sup>3\<^sup>2 - 2\<^sup>1\<^sup>7 + 1\<close> none of \<open>limit + 1\<close>, \<open>i * i\<close>,
  \<open>j + 2 * i\<close> and \<open>i + 2\<close> wraps around, and the sieve returns the primes up to the limit.
\<close>


lemma unat_u32_less: "unat (w :: u32) < 4294967296"
  using unsigned_less [of w] by simp

lemma unat_add_u32:
  fixes a b :: u32
  assumes "unat a + unat b < 4294967296"
  shows "unat (a + b) = unat a + unat b"
  using assms unat_add_lem [of a b] by simp

lemma unat_square_u32:
  fixes i :: u32
  assumes "unat i \<le> 65535"
  shows "unat (i * i) = unat i * unat i"
proof -
  have "unat i * unat i \<le> 65535 * 65535" using assms by (intro mult_le_mono)
  then have "unat i * unat i < 2 ^ LENGTH(32)" by simp
  then show ?thesis using unat_mult_lem [of i i] by simp
qed

lemma unat_double_u32:
  fixes i :: u32
  assumes "unat i \<le> 65535"
  shows "unat (2 * i) = 2 * unat i"
proof -
  have "unat (2 :: u32) * unat i < 2 ^ LENGTH(32)" using assms by simp
  then show ?thesis using unat_mult_lem [of 2 i] by simp
qed

lemma index_unat:
  fixes j :: u32
  assumes "odd (unat j)"
  shows "unat ((j - 1) div 2) = (unat j - 1) div 2" "2 * ((unat j - 1) div 2) + 1 = unat j"
proof -
  have "j \<noteq> 0" using assms by (auto simp: unat_eq_0)
  then have "unat (j - 1) = unat j - 1" by (rule unat_minus_one)
  then show "unat ((j - 1) div 2) = (unat j - 1) div 2" by (simp add: unat_div)
  show "2 * ((unat j - 1) div 2) + 1 = unat j" using assms by (auto elim!: oddE)
qed

lemma index_in_range:
  fixes j L :: nat
  assumes "odd j" "j \<le> L"
  shows "(j - 1) div 2 < (L + 1) div 2"
proof -
  obtain b where b: "j = 2 * b + 1" using assms(1) by (auto elim!: oddE)
  have "2 * b + 2 \<le> L + 1" using assms(2) b by simp
  then have "(2 * b + 2) div 2 \<le> (L + 1) div 2" by (rule div_le_mono)
  then show ?thesis using b by simp
qed

lemma number_in_range:
  assumes "k < (L + 1) div 2"
  shows "2 * k + 1 \<le> (L::nat)"
  using assms by linarith

lemma mark_multiples_result:
  assumes "unat limit < 4294836225" "0 < unat i" "unat i \<le> 65535" "odd (unat j)"
    and "unat j \<le> unat limit + 2 * unat i" "length bs = (unat limit + 1) div 2"
  shows "\<exists>bs'. mark_multiples limit i j bs = Some (Inr bs') \<and>
           length bs' = length bs \<and>
           (\<forall>k < length bs. bs' ! k \<longleftrightarrow>
              bs ! k \<or> (\<exists>m. 2 * k + 1 = unat j + m * (2 * unat i)))"
  using assms(4-6)
proof (induction "unat limit + 2 * unat i - unat j" arbitrary: j bs rule: less_induct)
  case less
  show ?case
  proof (cases "j \<le> limit")
    case False
    then have gt: "unat limit < unat j" by (simp add: word_le_nat_alt)
    have "\<not> (\<exists>m. 2 * k + 1 = unat j + m * (2 * unat i))" if "k < length bs" for k
    proof -
      have "2 * k + 1 \<le> unat limit" using that less.prems(3) by (intro number_in_range) simp
      then show ?thesis using gt by auto
    qed
    moreover have "mark_multiples limit i j bs = Some (Inr bs)"
      using False by (subst mark_multiples.simps) simp
    ultimately show ?thesis by auto
  next
    case True
    let ?k = "(unat j - 1) div 2"
    let ?bs = "bs[?k := True]"
    have le: "unat j \<le> unat limit" using True by (simp add: word_le_nat_alt)
    have k: "unat ((j - 1) div 2) = ?k" and kj: "2 * ?k + 1 = unat j"
      using index_unat [OF less.prems(1)] by auto
    have "?k < (unat limit + 1) div 2" using less.prems(1) le by (rule index_in_range)
    then have kin: "?k < length bs" unfolding less.prems(3) .
    have u2: "unat (2 * i) = 2 * unat i" using assms(3) by (rule unat_double_u32)
    have "unat j + unat (2 * i) < 4294967296" using le assms(1,3) u2 by simp
    then have uj: "unat (j + 2 * i) = unat j + 2 * unat i"
      using u2 unat_add_u32 [of j "2 * i"] by simp
    have "\<exists>bs'. mark_multiples limit i (j + 2 * i) ?bs = Some (Inr bs') \<and>
           length bs' = length ?bs \<and>
           (\<forall>k < length ?bs. bs' ! k \<longleftrightarrow>
              ?bs ! k \<or> (\<exists>m. 2 * k + 1 = unat (j + 2 * i) + m * (2 * unat i)))"
    proof (rule less.hyps)
      show "unat limit + 2 * unat i - unat (j + 2 * i) < unat limit + 2 * unat i - unat j"
        using uj le assms(2) by simp
      show "odd (unat (j + 2 * i))" using uj less.prems(1) by simp
      show "unat (j + 2 * i) \<le> unat limit + 2 * unat i" using uj le by simp
      show "length ?bs = (unat limit + 1) div 2" using less.prems(3) by simp
    qed
    then obtain bs' where
      r: "mark_multiples limit i (j + 2 * i) ?bs = Some (Inr bs')"
      and len: "length bs' = length bs"
      and marks: "\<And>k. k < length bs \<Longrightarrow> bs' ! k \<longleftrightarrow>
              ?bs ! k \<or> (\<exists>m. 2 * k + 1 = unat j + 2 * unat i + m * (2 * unat i))"
      unfolding uj by auto
    have full: "mark_multiples limit i j bs = Some (Inr bs')"
      using True kin r k by (subst mark_multiples.simps) (simp add: Let_def)
    have "bs' ! n \<longleftrightarrow> bs ! n \<or> (\<exists>m. 2 * n + 1 = unat j + m * (2 * unat i))"
      if n: "n < length bs" for n
    proof -
      have upd: "?bs ! n \<longleftrightarrow> bs ! n \<or> n = ?k"
        using n by (cases "n = ?k") simp_all
      have first: "n = ?k \<longleftrightarrow> 2 * n + 1 = unat j" using kj by auto
      have "(\<exists>m. 2 * n + 1 = unat j + m * (2 * unat i)) \<longleftrightarrow>
        2 * n + 1 = unat j \<or> (\<exists>m. 2 * n + 1 = unat j + 2 * unat i + m * (2 * unat i))"
      proof
        assume "\<exists>m. 2 * n + 1 = unat j + m * (2 * unat i)"
        then obtain m where m: "2 * n + 1 = unat j + m * (2 * unat i)" by blast
        show "2 * n + 1 = unat j \<or> (\<exists>m. 2 * n + 1 = unat j + 2 * unat i + m * (2 * unat i))"
        proof (cases m)
          case 0
          then show ?thesis using m by simp
        next
          case (Suc m')
          then have "2 * n + 1 = unat j + 2 * unat i + m' * (2 * unat i)" using m by simp
          then show ?thesis by blast
        qed
      next
        assume "2 * n + 1 = unat j \<or> (\<exists>m. 2 * n + 1 = unat j + 2 * unat i + m * (2 * unat i))"
        then show "\<exists>m. 2 * n + 1 = unat j + m * (2 * unat i)"
        proof
          assume "2 * n + 1 = unat j"
          then show ?thesis by (intro exI [of _ 0]) simp
        next
          assume "\<exists>m. 2 * n + 1 = unat j + 2 * unat i + m * (2 * unat i)"
          then obtain m where "2 * n + 1 = unat j + 2 * unat i + m * (2 * unat i)" by blast
          then show ?thesis by (intro exI [of _ "Suc m"]) simp
        qed
      qed
      then show ?thesis using marks [OF n] upd first by blast
    qed
    then show ?thesis using full len by blast
  qed
qed

lemma odd_multiples_from_square:
  fixes i n :: nat
  assumes "odd n" "odd i"
  shows "(\<exists>m. n = i * i + m * (2 * i)) \<longleftrightarrow> i dvd n \<and> i * i \<le> n"
proof
  assume "\<exists>m. n = i * i + m * (2 * i)"
  then obtain m where "n = i * i + m * (2 * i)" by blast
  then have "n = i * (i + 2 * m)" "i * i \<le> n" by (simp_all add: algebra_simps)
  then show "i dvd n \<and> i * i \<le> n" by simp
next
  assume a: "i dvd n \<and> i * i \<le> n"
  then obtain c where c: "n = i * c" by (auto simp: dvd_def)
  have "0 < i" using assms(2) by (auto elim: oddE)
  then have "i \<le> c" using a c by simp
  moreover have "odd c" using assms(1) c by simp
  ultimately obtain a b where ab: "c = 2 * a + 1" "i = 2 * b + 1" "b \<le> a"
    using assms(2) by (auto elim!: oddE)
  define m where "m = a - b"
  have "c = i + 2 * m" using ab by (simp add: m_def)
  then have "n = i * (i + 2 * m)" using c by simp
  then have "n = i * i + m * (2 * i)" by (simp add: algebra_simps)
  then show "\<exists>m. n = i * i + m * (2 * i)" by blast
qed

lemma less_square: "3 \<le> (p::nat) \<Longrightarrow> p < p * p"
  by (cases p) auto

lemma marked_by_step:
  assumes "odd i" "3 \<le> i"
  shows "marked_by (i + 2) n \<longleftrightarrow> marked_by i n \<or> (prime_nat i \<and> i dvd n \<and> i * i \<le> n)"
proof
  assume "marked_by (i + 2) n"
  then obtain p where p: "p < i + 2" "prime_nat p" "2 < p" "p dvd n" "p * p \<le> n"
    by (auto simp: marked_by_def)
  have "odd p" using p(2,3) by (rule prime_nat_odd)
  then have "p \<noteq> i + 1" using assms(1) by auto
  then consider "p < i" | "p = i" using p(1) by linarith
  then show "marked_by i n \<or> (prime_nat i \<and> i dvd n \<and> i * i \<le> n)"
  proof cases
    case 1
    then show ?thesis using p by (auto simp: marked_by_def)
  next
    case 2
    then show ?thesis using p by simp
  qed
next
  assume "marked_by i n \<or> (prime_nat i \<and> i dvd n \<and> i * i \<le> n)"
  then show "marked_by (i + 2) n"
  proof
    assume "marked_by i n"
    then obtain p where "p < i" "prime_nat p" "2 < p" "p dvd n" "p * p \<le> n"
      by (auto simp: marked_by_def)
    then show ?thesis unfolding marked_by_def by (intro exI [of _ p]) simp
  next
    assume "prime_nat i \<and> i dvd n \<and> i * i \<le> n"
    then show ?thesis unfolding marked_by_def using assms(2) by (intro exI [of _ i]) simp
  qed
qed

lemma marked_by_composite:
  assumes "marked_by i n"
  shows "\<not> prime_nat n"
proof
  assume pn: "prime_nat n"
  obtain p where p: "prime_nat p" "2 < p" "p dvd n" "p * p \<le> n"
    using assms by (auto simp: marked_by_def)
  have "p < p * p" using p(2) by (intro less_square) simp
  then have "p < n" using p(4) by (rule less_le_trans)
  then show False using prime_nat_dvd [OF pn p(3)] p(2) by simp
qed

lemma composite_marked_by:
  assumes "odd n" "3 \<le> n" "\<not> prime_nat n" "n < i * i"
  shows "marked_by i n"
proof -
  obtain q where q: "prime_nat q" "q dvd n" "q * q \<le> n"
    using prime_factor_exists [of n] assms(2,3) by auto
  have q3: "odd q" "3 \<le> q" using prime_factor_of_odd [OF q(1,2) assms(1)] by auto
  have "q < i"
  proof (rule ccontr)
    assume "\<not> q < i"
    then have "i * i \<le> q * q" by (intro mult_le_mono) auto
    then show False using q(3) assms(4) by simp
  qed
  then show ?thesis unfolding marked_by_def using q q3 by (intro exI [of _ q]) simp
qed

lemma unmarked_self_prime:
  assumes "odd i" "3 \<le> i"
  shows "marked_by i i \<longleftrightarrow> \<not> prime_nat i"
proof
  assume "marked_by i i"
  then show "\<not> prime_nat i" by (rule marked_by_composite)
next
  assume "\<not> prime_nat i"
  moreover have "i < i * i" using assms(2) by (rule less_square)
  ultimately show "marked_by i i" using assms by (intro composite_marked_by)
qed

lemma unat_plus_2_u32:
  fixes i :: u32
  assumes "unat i + 2 < 4294967296"
  shows "unat (i + 2) = unat i + 2"
  using assms unat_add_u32 [of i 2] by simp

lemma sieve_loop_result:
  assumes "unat limit < 4294836225" "odd (unat i)" "3 \<le> unat i" "unat i \<le> 65535"
    and "length bs = (unat limit + 1) div 2"
    and "\<And>k. k < length bs \<Longrightarrow> bs ! k \<longleftrightarrow> marked_by (unat i) (2 * k + 1)"
  shows "\<exists>bs'. sieve_loop limit i bs = Some (Inr bs') \<and> length bs' = length bs \<and>
           (\<forall>k < length bs. 1 \<le> k \<longrightarrow> (bs' ! k \<longleftrightarrow> \<not> prime_nat (2 * k + 1)))"
  using assms(2-6)
proof (induction "65535 - unat i" arbitrary: i bs rule: less_induct)
  case less
  have sq: "unat (i * i) = unat i * unat i" using less.prems(3) by (rule unat_square_u32)
  show ?case
  proof (cases "i * i \<le> limit")
    case False
    then have gt: "unat limit < unat i * unat i" using sq by (simp add: word_le_nat_alt)
    have "bs ! k \<longleftrightarrow> \<not> prime_nat (2 * k + 1)" if k: "k < length bs" "1 \<le> k" for k
    proof -
      have "2 * k + 1 \<le> unat limit" using k(1) less.prems(4) by (intro number_in_range) simp
      then have lt: "2 * k + 1 < unat i * unat i" using gt by simp
      have "marked_by (unat i) (2 * k + 1) \<longleftrightarrow> \<not> prime_nat (2 * k + 1)"
      proof
        assume "marked_by (unat i) (2 * k + 1)"
        then show "\<not> prime_nat (2 * k + 1)" by (rule marked_by_composite)
      next
        assume "\<not> prime_nat (2 * k + 1)"
        then show "marked_by (unat i) (2 * k + 1)"
          using k(2) lt by (intro composite_marked_by) auto
      qed
      then show ?thesis using less.prems(5) [OF k(1)] by simp
    qed
    moreover have "sieve_loop limit i bs = Some (Inr bs)"
      using False by (subst sieve_loop.simps) simp
    ultimately show ?thesis by auto
  next
    case True
    then have le: "unat i * unat i \<le> unat limit" using sq by (simp add: word_le_nat_alt)
    let ?k = "(unat i - 1) div 2"
    have k: "unat ((i - 1) div 2) = ?k" and ki: "2 * ?k + 1 = unat i"
      using index_unat [OF less.prems(1)] by auto
    have "unat i < unat i * unat i" using less.prems(2) by (rule less_square)
    then have "unat i \<le> unat limit" using le by linarith
    then have "?k < (unat limit + 1) div 2" using less.prems(1) by (intro index_in_range)
    then have kin: "?k < length bs" unfolding less.prems(4) .
    have self: "bs ! ?k \<longleftrightarrow> \<not> prime_nat (unat i)"
      using less.prems(5) [OF kin] ki unmarked_self_prime [OF less.prems(1,2)] by simp
    have "unat i \<noteq> 65535"
    proof
      assume "unat i = 65535"
      then have "unat i * unat i = 4294836225" by simp
      then show False using le assms(1) by simp
    qed
    then have "unat i < 65535" using less.prems(3) by simp
    moreover have "odd (65535 :: nat)" by simp
    ultimately have le2: "unat i + 2 \<le> 65535" using less.prems(1) by (intro odd_next_le)
    then have u2: "unat (i + 2) = unat i + 2" by (intro unat_plus_2_u32) simp
    have rec: "\<exists>bs'. sieve_loop limit (i + 2) bs1 = Some (Inr bs') \<and> length bs' = length bs1 \<and>
           (\<forall>k < length bs1. 1 \<le> k \<longrightarrow> (bs' ! k \<longleftrightarrow> \<not> prime_nat (2 * k + 1)))"
      if "length bs1 = (unat limit + 1) div 2"
        and "\<And>k. k < length bs1 \<Longrightarrow> bs1 ! k \<longleftrightarrow> marked_by (unat i + 2) (2 * k + 1)" for bs1
    proof (rule less.hyps)
      show "65535 - unat (i + 2) < 65535 - unat i" using u2 le2 by simp
      show "odd (unat (i + 2))" using u2 less.prems(1) by simp
      show "3 \<le> unat (i + 2)" using u2 less.prems(2) by simp
      show "unat (i + 2) \<le> 65535" using u2 le2 by simp
      show "length bs1 = (unat limit + 1) div 2" by (rule that(1))
      show "bs1 ! k \<longleftrightarrow> marked_by (unat (i + 2)) (2 * k + 1)" if "k < length bs1" for k
        unfolding u2 using that by (rule \<open>\<And>k. k < length bs1 \<Longrightarrow> bs1 ! k \<longleftrightarrow> marked_by (unat i + 2) (2 * k + 1)\<close>)
    qed
    show ?thesis
    proof (cases "bs ! ?k")
      case marked: True
      then have np: "\<not> prime_nat (unat i)" using self by simp
      have "bs ! n \<longleftrightarrow> marked_by (unat i + 2) (2 * n + 1)" if "n < length bs" for n
        using less.prems(5) [OF that] marked_by_step [OF less.prems(1,2), of "2 * n + 1"] np by simp
      with rec [of bs] less.prems(4) obtain bs' where
        r: "sieve_loop limit (i + 2) bs = Some (Inr bs')" "length bs' = length bs"
        "\<forall>k < length bs. 1 \<le> k \<longrightarrow> (bs' ! k \<longleftrightarrow> \<not> prime_nat (2 * k + 1))"
        by blast
      have "sieve_loop limit i bs = Some (Inr bs')"
        using True kin k marked r(1) by (subst sieve_loop.simps) (simp add: Let_def)
      then show ?thesis using r(2,3) by blast
    next
      case unmarked: False
      then have pi: "prime_nat (unat i)" using self by simp
      have i0: "0 < unat i" using less.prems(2) by simp
      have "unat (i * i) \<le> unat limit + 2 * unat i" using sq le by simp
      moreover have "odd (unat (i * i))" using sq less.prems(1) by simp
      ultimately obtain bs1 where
        m: "mark_multiples limit i (i * i) bs = Some (Inr bs1)" "length bs1 = length bs"
        and marks: "\<And>n. n < length bs \<Longrightarrow> bs1 ! n \<longleftrightarrow>
              bs ! n \<or> (\<exists>m. 2 * n + 1 = unat (i * i) + m * (2 * unat i))"
        using mark_multiples_result [OF assms(1) i0 less.prems(3), of "i * i" bs] less.prems(4)
        by blast
      have "bs1 ! n \<longleftrightarrow> marked_by (unat i + 2) (2 * n + 1)" if n: "n < length bs1" for n
      proof -
        have "(\<exists>m. 2 * n + 1 = unat i * unat i + m * (2 * unat i)) \<longleftrightarrow>
          unat i dvd (2 * n + 1) \<and> unat i * unat i \<le> 2 * n + 1"
          using less.prems(1) by (intro odd_multiples_from_square) simp
        then show ?thesis
          using marks [of n] n m(2) less.prems(5) [of n] sq pi
            marked_by_step [OF less.prems(1,2), of "2 * n + 1"]
          by simp
      qed
      with rec [of bs1] m(2) less.prems(4) obtain bs' where
        r: "sieve_loop limit (i + 2) bs1 = Some (Inr bs')" "length bs' = length bs1"
        "\<forall>k < length bs1. 1 \<le> k \<longrightarrow> (bs' ! k \<longleftrightarrow> \<not> prime_nat (2 * k + 1))"
        by auto
      have "sieve_loop limit i bs = Some (Inr bs')"
        using True kin k unmarked m(1) r(1) by (subst sieve_loop.simps) (simp add: Let_def)
      then show ?thesis using r(2,3) m(2) by auto
    qed
  qed
qed

lemma even_not_prime: "even n \<Longrightarrow> 2 < n \<Longrightarrow> \<not> prime_nat n"
  using prime_nat_odd by blast

lemma filter_prime_from_odd:
  assumes "odd i" "3 \<le> i" "i \<le> L"
  shows "filter prime_nat [i..<Suc L] =
    (if prime_nat i then [i] else []) @ filter prime_nat [i + 2..<Suc L]"
proof -
  have a: "[i..<Suc L] = i # [Suc i..<Suc L]" using assms(3) by (simp add: upt_conv_Cons)
  have "filter prime_nat [Suc i..<Suc L] = filter prime_nat [i + 2..<Suc L]"
  proof (cases "Suc i \<le> L")
    case True
    then have "[Suc i..<Suc L] = Suc i # [i + 2..<Suc L]" by (simp add: upt_conv_Cons)
    moreover have "\<not> prime_nat (Suc i)" using assms(1,2) by (intro even_not_prime) auto
    ultimately show ?thesis by simp
  next
    case False
    then show ?thesis by simp
  qed
  then show ?thesis unfolding a by simp
qed

lemma collect_primes_result:
  assumes "unat limit < 4294836225" "odd (unat i)" "3 \<le> unat i" "unat i \<le> unat limit + 2"
    and "length bs = (unat limit + 1) div 2"
    and "\<And>k. k < length bs \<Longrightarrow> 1 \<le> k \<Longrightarrow> bs ! k \<longleftrightarrow> \<not> prime_nat (2 * k + 1)"
  shows "collect_primes limit i bs primes =
    Some (Inr (primes @ map word_of_nat (filter prime_nat [unat i..<Suc (unat limit)])))"
  using assms(2-4)
proof (induction "unat limit + 2 - unat i" arbitrary: i primes rule: less_induct)
  case less
  show ?case
  proof (cases "i \<le> limit")
    case False
    then have "unat limit < unat i" by (simp add: word_le_nat_alt)
    then have "[unat i..<Suc (unat limit)] = []" by simp
    then show ?thesis using False by (subst collect_primes.simps) simp
  next
    case True
    then have le: "unat i \<le> unat limit" by (simp add: word_le_nat_alt)
    let ?k = "(unat i - 1) div 2"
    have k: "unat ((i - 1) div 2) = ?k" and ki: "2 * ?k + 1 = unat i"
      using index_unat [OF less.prems(1)] by auto
    have "?k < (unat limit + 1) div 2" using less.prems(1) le by (rule index_in_range)
    then have kin: "?k < length bs" unfolding assms(5) .
    have k1: "1 \<le> ?k" using less.prems(2) by simp
    have self: "bs ! ?k \<longleftrightarrow> \<not> prime_nat (unat i)"
      using assms(6) [OF kin k1] ki by simp
    have u2: "unat (i + 2) = unat i + 2" using le assms(1) by (intro unat_plus_2_u32) simp
    have "collect_primes limit (i + 2) bs (if \<not> bs ! ?k then primes @ [i] else primes) =
      Some (Inr ((if \<not> bs ! ?k then primes @ [i] else primes) @
        map word_of_nat (filter prime_nat [unat (i + 2)..<Suc (unat limit)])))"
    proof (rule less.hyps)
      show "unat limit + 2 - unat (i + 2) < unat limit + 2 - unat i" using u2 le by simp
      show "odd (unat (i + 2))" using u2 less.prems(1) by simp
      show "3 \<le> unat (i + 2)" using u2 less.prems(2) by simp
      show "unat (i + 2) \<le> unat limit + 2" using u2 le by simp
    qed
    moreover have "map word_of_nat (filter prime_nat [unat i..<Suc (unat limit)]) =
      (if \<not> bs ! ?k then [i] else []) @
        map word_of_nat (filter prime_nat [unat (i + 2)..<Suc (unat limit)])"
      unfolding u2 filter_prime_from_odd [OF less.prems(1,2) le] using self by simp
    ultimately show ?thesis
      using True kin k by (subst collect_primes.simps) (simp add: Let_def)
  qed
qed

lemma marked_by_3: "\<not> marked_by 3 n"
proof
  assume "marked_by 3 n"
  then obtain p :: nat where "p < 3" "2 < p" by (auto simp: marked_by_def)
  then show False by simp
qed

lemma simd_sieve_correct:
  assumes "unat limit < 4294836225"
  shows "simd_sieve limit = Some (Inr (map word_of_nat (primes_upto (unat limit))))"
proof (cases "limit < 2")
  case True
  then have "unat limit < 2" by (simp add: word_less_nat_alt)
  then have "[2..<Suc (unat limit)] = []" by simp
  then show ?thesis using True by (simp add: simd_sieve_def primes_upto_def)
next
  case False
  then have L2: "2 \<le> unat limit" by (simp add: word_less_nat_alt)
  let ?size = "(unat limit + 1) div 2"
  let ?bs = "replicate ?size False"
  have "unat (limit + 1) = unat limit + 1" using assms unat_add_u32 [of limit 1] by simp
  then have size: "unat ((limit + 1) div 2) = ?size" by (simp add: unat_div)
  have "\<exists>bs'. sieve_loop limit 3 ?bs = Some (Inr bs') \<and> length bs' = length ?bs \<and>
           (\<forall>k < length ?bs. 1 \<le> k \<longrightarrow> (bs' ! k \<longleftrightarrow> \<not> prime_nat (2 * k + 1)))"
  proof (rule sieve_loop_result [OF assms])
    show "?bs ! k \<longleftrightarrow> marked_by (unat (3 :: u32)) (2 * k + 1)" if "k < length ?bs" for k
      using that marked_by_3 by simp
  qed simp_all
  then obtain bs' where
    s: "sieve_loop limit 3 ?bs = Some (Inr bs')" and len: "length bs' = ?size"
    and fin: "\<And>k. k < length bs' \<Longrightarrow> 1 \<le> k \<Longrightarrow> bs' ! k \<longleftrightarrow> \<not> prime_nat (2 * k + 1)"
    by auto
  have c: "collect_primes limit 3 bs' [2] =
    Some (Inr ([2] @ map word_of_nat (filter prime_nat [unat (3 :: u32)..<Suc (unat limit)])))"
    using L2 by (intro collect_primes_result [OF assms _ _ _ len fin]) simp_all
  have "[2..<Suc (unat limit)] = 2 # [3..<Suc (unat limit)]"
    using L2 by (simp add: upt_conv_Cons)
  then have "primes_upto (unat limit) = 2 # filter prime_nat [3..<Suc (unat limit)]"
    by (simp add: primes_upto_def prime_nat_2)
  then show ?thesis
    using False s c size by (simp add: simd_sieve_def Let_def)
qed


subsection \<open>The largest limit\<close>

lemma simd_sieve_30: "simd_sieve 30 = Some (Inr [2, 3, 5, 7, 11, 13, 17, 19, 23, 29])"
  by code_simp

lemma simd_sieve_below_2: "limit < 2 \<Longrightarrow> simd_sieve limit = Some (Inr [])"
  by (simp add: simd_sieve_def)

text \<open>
  Claim C8 fails on the code at \<open>limit = 2\<^sup>3\<^sup>2 - 1\<close>. The size \<^verbatim>\<open>(limit + 1) / 2\<close> is
  computed in 32 bits, where \<open>limit + 1\<close> is 0: the vector is empty, and the first
  \<^verbatim>\<open>is_composite[(i - 1) / 2]\<close>, at \<open>i = 3\<close>, reads past its end. No list of primes is
  returned.
\<close>

theorem simd_sieve_max_limit: "simd_sieve 4294967295 = Some (Inl OutOfBounds)"
  by (simp add: simd_sieve_def sieve_loop.simps [of _ 3])

end
